theory Spec2Isabelle
  imports Complex_Main "HOL-Library.Word" "HOL-Library.Multiset"
begin

section \<open>Numeric model\<close>

text \<open>
  The program computes on C++ \<open>double\<close>. The embedding uses \<^typ>\<open>real\<close> for it: every
  arithmetic operation is the exact one, and a computation whose C++ result is not a
  finite number (a division by zero) or is undefined behaviour (an out-of-range array
  access, \<open>std::ranges::max\<close> of an empty range, a negative value cast to
  \<open>std::size_t\<close>) is an explicit \<open>None\<close> or \<open>Inl\<close> of the model.
\<close>

subsection \<open>Compile-time constants\<close>

definition full_variable_count :: nat where
  "full_variable_count = 13"

definition variable_count :: nat where
  "variable_count = full_variable_count - 1"

definition depth :: nat where
  "depth = 5"

definition bucket_count :: nat where
  "bucket_count = 1000"

subsection \<open>\<open>pow<P>\<close>\<close>

function pow :: "nat \<Rightarrow> real \<Rightarrow> real" where
  "pow P x =
     (if P = 0 then 1
      else if P mod 2 = 0 then pow (P div 2) x * pow (P div 2) x
      else x * pow (P div 2) x * pow (P div 2) x)"
  by pat_completeness auto
termination
  by (relation "measure (\<lambda>(P, x). P)") auto

declare pow.simps [simp del]

subsection \<open>\<open>thread_count\<close>\<close>

text \<open>
  \<open>std::max(1u, std::thread::hardware_concurrency() - 1)\<close>: both operands are
  \<open>unsigned int\<close> (32 bits), the subtraction wraps.
\<close>

definition thread_count :: "32 word \<Rightarrow> 32 word" where
  "thread_count hardware_concurrency = max 1 (hardware_concurrency - 1)"

subsection \<open>Activation function\<close>

definition logistic :: "real \<Rightarrow> real" where
  "logistic val = 1.0 / (1.0 + exp (- val)) - 0.5"

definition derivative_logistic :: "real \<Rightarrow> real" where
  "derivative_logistic val = (let e = exp val in e / pow 2 (1.0 + e))"

definition derivative_logistic_from_logistic :: "real \<Rightarrow> real" where
  "derivative_logistic_from_logistic val = (0.5 + val) * (0.5 - val)"

section \<open>The data pipeline (\<open>create_data\<close>)\<close>

text \<open>
  A row of \<open>data\<close> is a \<open>std::array<double, full_variable_count + 1>\<close>: the
  \<open>variable_count\<close> model inputs, then the discriminant \<open>Lb_M\<close> at index
  \<open>full_variable_count - 1\<close>, then the score (0 for real data, 1 for simulated) at index
  \<open>full_variable_count\<close>.
\<close>

type_synonym sample = "real list"

definition variable_names :: "string list" where
  "variable_names =
     [''Lres_IPCHI2_OWNPV'', ''h1_P'', ''h1_PT'', ''h2_P'', ''h2_PT'', ''Lres_FD_OWNPV'',
      ''Jpsi_FD_OWNPV'', ''Lres_TAUCHI2'', ''Lb_IP_OWNPV'', ''Jpsi_P'',
      ''Jpsi_ENDVERTEX_CHI2'', ''Lres_ENDVERTEX_CHI2'', ''Lb_M'']"

text \<open>
  \<open>movency::root::file\<close> is not part of the sources; a file is taken as its path and
  what \<open>uncompress<double>\<close> returns for each branch name.
\<close>

record root_file =
  get_path :: string
  uncompress :: "string \<Rightarrow> real list"

datatype pipeline_error =
  Inconsistent_variable_counts string nat nat nat string
  | Max_of_empty_range
  | Division_by_zero

text \<open>\<open>data.resize(n)\<close>: new rows are value-initialised.\<close>

definition resize :: "sample list \<Rightarrow> nat \<Rightarrow> sample list" where
  "resize data n = take n data @ replicate (n - length data) (replicate (full_variable_count + 1) 0)"

text \<open>
  One task of \<open>loop_threaded(read_variable, full_variable_count)\<close>. The error value
  carries the arguments of the diagnostic in the order they are printed: file path,
  previous count, variable count, expected total, variable name; it stands for
  \<open>std::exit(EXIT_FAILURE)\<close>.
\<close>

definition read_variable ::
    "root_file \<Rightarrow> nat \<Rightarrow> nat \<Rightarrow> sample list \<Rightarrow> pipeline_error + sample list" where
  "read_variable file old_size variable_index data =
     (let variables = uncompress file (variable_names ! variable_index);
          data1 = (if length data = old_size then resize data (old_size + length variables)
                   else data)
      in if old_size + length variables \<noteq> length data1
         then Inl (Inconsistent_variable_counts (get_path file) old_size (length variables)
                     (length data1) (variable_names ! variable_index))
         else Inr (foldl (\<lambda>d i. d[old_size + i := (d ! (old_size + i))[variable_index := variables ! i]])
                     data1 [0..<length variables]))"

text \<open>
  The tasks of one file run on the pool in an order the scheduler chooses; \<open>order\<close>
  is that order (a permutation of \<open>[0..<full_variable_count]\<close>). The first task that
  exits ends the process.
\<close>

fun read_variables ::
    "root_file \<Rightarrow> nat \<Rightarrow> nat list \<Rightarrow> sample list \<Rightarrow> pipeline_error + sample list" where
  "read_variables file old_size [] data = Inr data"
| "read_variables file old_size (variable_index # order) data =
     (case read_variable file old_size variable_index data of
        Inl err \<Rightarrow> Inl err
      | Inr data' \<Rightarrow> read_variables file old_size order data')"

definition read_from_file ::
    "nat list \<Rightarrow> root_file \<Rightarrow> bool \<Rightarrow> sample list \<Rightarrow> pipeline_error + sample list" where
  "read_from_file order file score data =
     (let old_size = length data
      in case read_variables file old_size order data of
           Inl err \<Rightarrow> Inl err
         | Inr data' \<Rightarrow>
             Inr (foldl (\<lambda>d i. d[i := (d ! i)[full_variable_count := of_bool score]])
                    data' [old_size..<length data']))"

text \<open>The predicate of \<open>std::erase_if\<close>: a \<open>bool\<close> compared with a \<open>double\<close>.\<close>

definition in_window :: "sample \<Rightarrow> bool" where
  "in_window e = (\<bar>e ! (full_variable_count - 1) - 5619.60\<bar> < 300.0)"

definition erased :: "sample \<Rightarrow> bool" where
  "erased e = (of_bool (in_window e) \<noteq> e ! full_variable_count)"

definition erase_inconsistent :: "sample list \<Rightarrow> sample list" where
  "erase_inconsistent data = filter (\<lambda>e. \<not> erased e) data"

text \<open>\<open>!e[full_variable_count]\<close>: the row is real data, the background.\<close>

definition is_background :: "sample \<Rightarrow> bool" where
  "is_background e = (e ! full_variable_count = 0)"

definition real_count :: "sample list \<Rightarrow> nat" where
  "real_count data = length (filter is_background data)"

text \<open>
  \<open>std::ranges::max(data, {}, proj)\<close>: the leftmost row whose projection is the
  largest; undefined on an empty range.
\<close>

definition ranges_max :: "('a \<Rightarrow> real) \<Rightarrow> 'a list \<Rightarrow> 'a option" where
  "ranges_max proj xs =
     (case xs of
        [] \<Rightarrow> None
      | x # rest \<Rightarrow> Some (foldl (\<lambda>m e. if proj m < proj e then e else m) x rest))"

definition normalize_variable ::
    "nat \<Rightarrow> sample list \<Rightarrow> pipeline_error + sample list" where
  "normalize_variable variable_index data =
     (case ranges_max (\<lambda>e. e ! variable_index) data of
        None \<Rightarrow> Inl Max_of_empty_range
      | Some m \<Rightarrow>
          (let divisor = m ! variable_index
           in if divisor = 0 then Inl Division_by_zero
              else Inr (map (\<lambda>e. e[variable_index := e ! variable_index / divisor]) data)))"

text \<open>
  \<open>loop_threaded(normalize_variable, variable_count)\<close>: each task reads and writes its
  own column only, so the tasks are run one after the other.
\<close>

fun normalize_variables :: "nat list \<Rightarrow> sample list \<Rightarrow> pipeline_error + sample list" where
  "normalize_variables [] data = Inr data"
| "normalize_variables (variable_index # rest) data =
     (case normalize_variable variable_index data of
        Inl err \<Rightarrow> Inl err
      | Inr data' \<Rightarrow> normalize_variables rest data')"

definition sources :: "(string \<times> bool) list" where
  "sources =
     [(''../data/Lb2pKmm_mgUp_2018.root'', False),
      (''../data/Lb2pKmm_sim_mgUp_2018.root'', True),
      (''../data/Lb2pKmm_mgDn_2018.root'', False),
      (''../data/Lb2pKmm_sim_mgDn_2018.root'', True)]"

fun read_sources ::
    "nat list \<Rightarrow> (string \<Rightarrow> string \<Rightarrow> real list) \<Rightarrow> (string \<times> bool) list \<Rightarrow> sample list
      \<Rightarrow> pipeline_error + sample list" where
  "read_sources order contents [] data = Inr data"
| "read_sources order contents ((path, score) # rest) data =
     (case read_from_file order \<lparr>get_path = path, uncompress = contents path\<rparr> score data of
        Inl err \<Rightarrow> Inl err
      | Inr data' \<Rightarrow> read_sources order contents rest data')"

text \<open>
  \<open>contents\<close> is what the four files hold, \<open>shuffle\<close> the permutation that
  \<open>std::ranges::shuffle\<close> applies with the process-wide generator.
\<close>

definition create_data ::
    "nat list \<Rightarrow> (string \<Rightarrow> string \<Rightarrow> real list) \<Rightarrow> (sample list \<Rightarrow> sample list)
      \<Rightarrow> pipeline_error + (sample list \<times> real)" where
  "create_data order contents shuffle =
     (case read_sources order contents sources [] of
        Inl err \<Rightarrow> Inl err
      | Inr loaded \<Rightarrow>
          (let data = erase_inconsistent loaded;
               rc = real_count data;
               data = shuffle data
           in case normalize_variables [0..<variable_count] data of
                Inl err \<Rightarrow> Inl err
              | Inr data \<Rightarrow> Inr (data, real rc / real (length data))))"

section \<open>Diagnostics\<close>

datatype diagnostics_error = Sizes_not_equal nat nat | Index_out_of_range

text \<open>
  \<open>static_cast<std::size_t>\<close> of a \<open>double\<close> truncates towards zero; the behaviour
  is undefined when the truncated value is not a \<open>std::size_t\<close>.
\<close>

definition to_size_t :: "real \<Rightarrow> nat option" where
  "to_size_t x =
     (let t = (if x < 0 then \<lceil>x\<rceil> else \<lfloor>x\<rfloor>)
      in if 0 \<le> t \<and> t < 2 ^ 64 then Some (nat t) else None)"

text \<open>The loop of \<open>create_histogram\<close> over \<open>i\<close>, with both array indices checked.\<close>

fun fill_histogram ::
    "real \<Rightarrow> real list \<Rightarrow> sample list \<Rightarrow> nat list \<Rightarrow> real list list
      \<Rightarrow> diagnostics_error + real list list" where
  "fill_histogram fraction_background predictions data [] histogram = Inr histogram"
| "fill_histogram fraction_background predictions data (i # rest) histogram =
     (let target = data ! i ! full_variable_count;
          bias = (if target \<noteq> 0 then fraction_background else 1 - fraction_background)
      in case (to_size_t (predictions ! i * real bucket_count), to_size_t target) of
           (Some bucket, Some column) \<Rightarrow>
             if bucket < bucket_count \<and> column < 2
             then fill_histogram fraction_background predictions data rest
                    (histogram[bucket := (histogram ! bucket)[column := histogram ! bucket ! column + bias]])
             else Inl Index_out_of_range
         | _ \<Rightarrow> Inl Index_out_of_range)"

text \<open>
  \<open>create_histogram\<close> up to the filled histogram, which is what is then drawn;
  \<open>Sizes_not_equal\<close> stands for \<open>std::exit(1)\<close>.
\<close>

definition create_histogram ::
    "real list \<Rightarrow> sample list \<Rightarrow> diagnostics_error + real list list" where
  "create_histogram predictions data =
     (if length predictions \<noteq> length data
      then Inl (Sizes_not_equal (length predictions) (length data))
      else fill_histogram (real (real_count data) / real (length data)) predictions data
             [0..<length predictions] (replicate bucket_count [0, 0]))"

text \<open>\<open>create_ROC_curve\<close>: only its size check; the curve it draws is not modelled.\<close>

definition create_ROC_curve :: "real list \<Rightarrow> sample list \<Rightarrow> diagnostics_error + unit" where
  "create_ROC_curve predictions data =
     (if length predictions \<noteq> length data
      then Inl (Sizes_not_equal (length predictions) (length data))
      else Inr ())"

section \<open>The network\<close>

text \<open>
  \<open>connections\<close> and each entry of \<open>updates\<close> are
  \<open>std::array<std::array<std::array<double, variable_count>, variable_count>, depth - 1>\<close>;
  \<open>nodes\<close> and \<open>errors\<close> are
  \<open>std::array<std::array<double, variable_count>, depth>\<close>.
\<close>

type_synonym tensor = "real list list list"

definition zero_update :: tensor where
  "zero_update = replicate (depth - 1) (replicate variable_count (replicate variable_count 0))"

subsection \<open>Forward pass\<close>

definition activation :: "real list list \<Rightarrow> real list \<Rightarrow> nat \<Rightarrow> real" where
  "activation weights previous j =
     logistic (foldl (\<lambda>acc k. acc + previous ! k * weights ! j ! k) 0 [0..<variable_count])"

definition compute_nodes :: "tensor \<Rightarrow> sample \<Rightarrow> real list list" where
  "compute_nodes connections e =
     foldl (\<lambda>nodes i. nodes @ [map (activation (connections ! (i - 1)) (nodes ! (i - 1)))
                                   [0..<variable_count]])
       [map (\<lambda>i. e ! i) [0..<variable_count]] [1..<depth]"

definition compute_score :: "real list list \<Rightarrow> real" where
  "compute_score nodes =
     logistic (foldl (\<lambda>score i. score + last nodes ! i) 0 [0..<variable_count]) + 0.5"

subsection \<open>Backward pass\<close>

definition output_errors :: "real \<Rightarrow> real list \<Rightarrow> real list" where
  "output_errors error last_nodes =
     map (\<lambda>i. error / real variable_count * derivative_logistic_from_logistic (last_nodes ! i))
       [0..<variable_count]"

definition hidden_errors :: "real list list \<Rightarrow> real list \<Rightarrow> real list \<Rightarrow> real list" where
  "hidden_errors weights layer_nodes next_errors =
     map (\<lambda>j. foldl (\<lambda>acc k. acc + next_errors ! k * weights ! k ! j) 0 [0..<variable_count]
               * derivative_logistic_from_logistic (layer_nodes ! j))
       [0..<variable_count]"

text \<open>
  \<open>errors[0]\<close> is never written and never read; it is an empty list here. The loop
  runs \<open>i\<close> from \<open>depth - 2\<close> down to 1.
\<close>

definition compute_errors :: "tensor \<Rightarrow> real list list \<Rightarrow> real \<Rightarrow> real list list" where
  "compute_errors connections nodes error =
     foldl (\<lambda>errors i. errors[i := hidden_errors (connections ! i) (nodes ! i) (errors ! (i + 1))])
       ((replicate depth [])[depth - 1 := output_errors error (last nodes)])
       (rev [1..<depth - 1])"

definition save_updates :: "tensor \<Rightarrow> real list list \<Rightarrow> real list list \<Rightarrow> tensor" where
  "save_updates update errors nodes =
     map (\<lambda>i. map (\<lambda>j. map (\<lambda>k. update ! i ! j ! k + errors ! (i + 1) ! j * nodes ! i ! k)
                        [0..<variable_count])
                [0..<variable_count])
       [0..<depth - 1]"

definition backpropagate ::
    "real \<Rightarrow> tensor \<Rightarrow> sample \<Rightarrow> real list list \<Rightarrow> real \<Rightarrow> tensor \<Rightarrow> tensor" where
  "backpropagate fraction_background connections e nodes score update =
     (let fraction_signal = 1.0 - fraction_background;
          target = e ! full_variable_count;
          bias = (if target \<noteq> 0 then fraction_background else fraction_signal);
          error = (target - score) * bias * derivative_logistic_from_logistic (score - 0.5)
      in save_updates update (compute_errors connections nodes error) nodes)"

section \<open>The scheduler (\<open>main\<close>)\<close>

subsection \<open>Machine integers and the generator\<close>

text \<open>
  \<open>reps\<close> is a \<open>std::atomic<std::ptrdiff_t>\<close>; its \<open>fetch_add\<close> and
  \<open>fetch_sub\<close> wrap in two's complement on 64 bits. \<open>std::size_t\<close> arithmetic
  wraps modulo \<open>2\<^sup>6\<^sup>4\<close>.
\<close>

definition wrap_ptrdiff :: "int \<Rightarrow> int" where
  "wrap_ptrdiff x = (x + 2 ^ 63) mod 2 ^ 64 - 2 ^ 63"

definition wrap_size_t :: "int \<Rightarrow> nat" where
  "wrap_size_t x = nat (x mod 2 ^ 64)"

definition train_cutoff_index :: "sample list \<Rightarrow> nat" where
  "train_cutoff_index data = wrap_size_t (int (length data) * 9) div 10"

text \<open>
  Modelled from the spec: \<open>movency::random::fast(uniform_distribution(lo, hi))\<close> of
  \<open>timeblit/random.hpp\<close>, which is not in the sources. The generator "supplies
  uniform draws over integer index ranges": the value lies in \<open>[lo, hi]\<close>;
  \<open>entropy\<close> is the generator's raw output for this draw.
\<close>

definition uniform_distribution :: "nat \<Rightarrow> nat \<Rightarrow> nat \<Rightarrow> nat" where
  "uniform_distribution lo hi entropy = lo + entropy mod (hi - lo + 1)"

subsection \<open>State\<close>

text \<open>
  What a worker thread of \<open>iterate\<close> does next: \<open>Running\<close> is the top of the inner
  loop, \<open>Claimed index\<close> is after the atomic operation with a sample to process,
  \<open>Waiting\<close> is inside \<open>sync_point.arrive_and_wait()\<close>, \<open>Released\<close> is after
  it, before \<open>updates[thread_no] = {}\<close>. \<open>Undefined_behaviour\<close> is entered by an
  out-of-range access.
\<close>

datatype worker = Running | Claimed nat | Waiting | Released | Undefined_behaviour

datatype event =
  Histogram_saved "real list list"
  | ROC_curve_saved
  | Prompt
  | Connections_printed tensor
  | Rep_count_prompt
  | Invalid_input
  | Prediction_recorded nat real

datatype stop = Exit diagnostics_error | Console_blocked

text \<open>
  The variables of \<open>main\<close> that change, the workers, what the operator will type
  (each entry is the character read at the prompt and the number read after it if
  the program asks for a rep count), and what the program has printed, saved and recorded.
\<close>

record scheduler =
  connections :: tensor
  updates :: "tensor list"
  train :: bool
  reps :: int
  excess_reps :: int
  predictions :: "real list"
  workers :: "worker list"
  console :: "(char \<times> int) list"
  trace :: "event list"

definition log_event :: "event \<Rightarrow> scheduler \<Rightarrow> scheduler" where
  "log_event ev s = s\<lparr>trace := trace s @ [ev]\<rparr>"

subsection \<open>The completion function of the barrier\<close>

definition add_update :: "tensor \<Rightarrow> tensor \<Rightarrow> tensor" where
  "add_update weights update =
     map (\<lambda>i. map (\<lambda>j. map (\<lambda>k. weights ! i ! j ! k + update ! i ! j ! k)
                        [0..<variable_count])
                [0..<variable_count])
       [0..<depth - 1]"

text \<open>The \<open>while (true)\<close> prompt loop; it blocks when the operator types nothing more.\<close>

fun prompt :: "(char \<times> int) list \<Rightarrow> scheduler \<Rightarrow> stop + scheduler" where
  "prompt [] s = Inl Console_blocked"
| "prompt ((input, number) # rest) s =
     (let s = log_event Prompt s
      in if input = CHR ''P'' then prompt rest (log_event (Connections_printed (connections s)) s)
         else if input = CHR ''E'' then Inr (s\<lparr>train := False, reps := 0, console := rest\<rparr>)
         else if input = CHR ''R''
           then Inr ((log_event Rep_count_prompt s)
                       \<lparr>train := True, excess_reps := number, console := rest\<rparr>)
         else prompt rest (log_event Invalid_input s))"

definition diagnostics :: "sample list \<Rightarrow> scheduler \<Rightarrow> stop + scheduler" where
  "diagnostics evaluation_data s =
     (case create_histogram (predictions s) evaluation_data of
        Inl err \<Rightarrow> Inl (Exit err)
      | Inr histogram \<Rightarrow>
          (case create_ROC_curve (predictions s) evaluation_data of
             Inl err \<Rightarrow> Inl (Exit err)
           | Inr _ \<Rightarrow> Inr (log_event ROC_curve_saved (log_event (Histogram_saved histogram) s))))"

definition combine_updates :: "sample list \<Rightarrow> scheduler \<Rightarrow> stop + scheduler" where
  "combine_updates data s =
     (let s = s\<lparr>connections := foldl add_update (connections s) (updates s)\<rparr>
      in case (if excess_reps s = 0
               then (case (if \<not> train s
                           then diagnostics (drop (train_cutoff_index data) data) s
                           else Inr s) of
                       Inl err \<Rightarrow> Inl err
                     | Inr s \<Rightarrow> prompt (console s) s)
               else Inr s) of
           Inl err \<Rightarrow> Inl err
         | Inr s \<Rightarrow>
             (let s = s\<lparr>reps := min (excess_reps s) 100\<rparr>
              in Inr (s\<lparr>excess_reps := excess_reps s - reps s\<rparr>)))"

subsection \<open>The steps of a worker (\<open>iterate\<close>)\<close>

text \<open>
  The head of the inner loop, up to the \<open>break\<close>: one atomic operation on \<open>reps\<close>,
  the index, the test. A \<open>break\<close> takes the worker to \<open>arrive_and_wait\<close>.
\<close>

definition claim :: "sample list \<Rightarrow> nat \<Rightarrow> nat \<Rightarrow> scheduler \<Rightarrow> scheduler" where
  "claim data thread_no entropy s =
     (let r = reps s
      in if train s
         then (let s = s\<lparr>reps := wrap_ptrdiff (r - 1)\<rparr>;
                   index = uniform_distribution 0
                             (wrap_size_t (int (train_cutoff_index data) - 1)) entropy
               in if r \<le> 0 then s\<lparr>workers := (workers s)[thread_no := Waiting]\<rparr>
                  else s\<lparr>workers := (workers s)[thread_no := Claimed index]\<rparr>)
         else (let s = s\<lparr>reps := wrap_ptrdiff (r + 1)\<rparr>;
                   index = wrap_size_t (int (train_cutoff_index data) + int (wrap_size_t r))
               in if index \<ge> length data then s\<lparr>workers := (workers s)[thread_no := Waiting]\<rparr>
                  else s\<lparr>workers := (workers s)[thread_no := Claimed index]\<rparr>))"

text \<open>The rest of the loop body: the forward pass, then the backward pass or the record.\<close>

definition process :: "sample list \<Rightarrow> real \<Rightarrow> nat \<Rightarrow> nat \<Rightarrow> scheduler \<Rightarrow> scheduler" where
  "process data fraction_background thread_no index s =
     (if index \<ge> length data
      then s\<lparr>workers := (workers s)[thread_no := Undefined_behaviour]\<rparr>
      else (let nodes = compute_nodes (connections s) (data ! index);
                score = compute_score nodes
            in if train s
               then s\<lparr>updates := (updates s)[thread_no :=
                                    backpropagate fraction_background (connections s)
                                      (data ! index) nodes score (updates s ! thread_no)],
                       workers := (workers s)[thread_no := Running]\<rparr>
               else if index < train_cutoff_index data
                       \<or> index - train_cutoff_index data \<ge> length (predictions s)
               then s\<lparr>workers := (workers s)[thread_no := Undefined_behaviour]\<rparr>
               else (log_event (Prediction_recorded index score) s)
                      \<lparr>predictions := (predictions s)[index - train_cutoff_index data := score],
                       workers := (workers s)[thread_no := Running]\<rparr>))"

text \<open>After \<open>arrive_and_wait\<close> has returned: \<open>updates[thread_no] = {}\<close>.\<close>

definition reset_update :: "nat \<Rightarrow> scheduler \<Rightarrow> scheduler" where
  "reset_update thread_no s =
     s\<lparr>updates := (updates s)[thread_no := zero_update],
       workers := (workers s)[thread_no := Running]\<rparr>"

subsection \<open>The barrier and the interleaving\<close>

text \<open>
  \<open>std::barrier\<close>: when the last worker has arrived, the completion function runs
  once while every worker is blocked, and then all of them are released.
\<close>

definition all_waiting :: "scheduler \<Rightarrow> bool" where
  "all_waiting s = list_all (\<lambda>w. w = Waiting) (workers s)"

definition complete_phase :: "sample list \<Rightarrow> scheduler \<Rightarrow> stop + scheduler" where
  "complete_phase data s =
     (if all_waiting s
      then (case combine_updates data s of
              Inl err \<Rightarrow> Inl err
            | Inr s' \<Rightarrow> Inr (s'\<lparr>workers := map (\<lambda>w. Released) (workers s')\<rparr>))
      else Inr s)"

datatype action = Worker_step nat nat | Completion

fun step :: "sample list \<Rightarrow> real \<Rightarrow> action \<Rightarrow> scheduler \<Rightarrow> stop + scheduler" where
  "step data fraction_background (Worker_step thread_no entropy) s =
     (if thread_no < length (workers s)
      then (case workers s ! thread_no of
              Running \<Rightarrow> Inr (claim data thread_no entropy s)
            | Claimed index \<Rightarrow> Inr (process data fraction_background thread_no index s)
            | Waiting \<Rightarrow> Inr s
            | Released \<Rightarrow> Inr (reset_update thread_no s)
            | Undefined_behaviour \<Rightarrow> Inr s)
      else Inr s)"
| "step data fraction_background Completion s = complete_phase data s"

fun run :: "sample list \<Rightarrow> real \<Rightarrow> action list \<Rightarrow> scheduler \<Rightarrow> stop + scheduler" where
  "run data fraction_background [] s = Inr s"
| "run data fraction_background (a # schedule) s =
     (case step data fraction_background a s of
        Inl err \<Rightarrow> Inl err
      | Inr s' \<Rightarrow> run data fraction_background schedule s')"

text \<open>
  The state when the pool starts: \<open>initial_connections\<close> are the random weights,
  \<open>pool\<close> is \<open>thread_count\<close>.
\<close>

definition initial :: "sample list \<Rightarrow> tensor \<Rightarrow> nat \<Rightarrow> (char \<times> int) list \<Rightarrow> scheduler" where
  "initial data initial_connections pool operator =
     \<lparr>connections = initial_connections,
      updates = replicate pool zero_update,
      train = True,
      reps = 0,
      excess_reps = 0,
      predictions = replicate (length data - train_cutoff_index data) 0,
      workers = replicate pool Running,
      console = operator,
      trace = []\<rparr>"

section \<open>Notions of the specification and example inputs\<close>

text \<open>The maximum of one feature over the whole dataset.\<close>

definition column_max :: "nat \<Rightarrow> sample list \<Rightarrow> real" where
  "column_max variable_index data = Max ((\<lambda>e. e ! variable_index) ` set data)"

text \<open>A row whose model inputs are all \<open>x\<close>, with the given discriminant and score.\<close>

definition input_row :: "real \<Rightarrow> real \<Rightarrow> real \<Rightarrow> sample" where
  "input_row x discriminant score = replicate variable_count x @ [discriminant, score]"

text \<open>
  A tensor with the same value everywhere, a dataset of two rows, and two states of a
  pool of one worker: at the barrier after a training phase, and at the start of a
  training phase of one rep.
\<close>

definition constant_tensor :: "real \<Rightarrow> tensor" where
  "constant_tensor x = replicate (depth - 1) (replicate variable_count (replicate variable_count x))"

definition example_data :: "sample list" where
  "example_data = [input_row 2 5000 0, input_row 4 5700 1]"

definition example_waiting :: scheduler where
  "example_waiting =
     \<lparr>connections = constant_tensor (1 / 10), updates = [constant_tensor 1], train = True,
      reps = - 1, excess_reps = 0, predictions = [0], workers = [Waiting],
      console = [(CHR ''P'', 0), (CHR ''R'', 5)], trace = []\<rparr>"

definition example_training :: scheduler where
  "example_training =
     \<lparr>connections = constant_tensor (1 / 10), updates = [zero_update], train = True,
      reps = 1, excess_reps = 0, predictions = [0], workers = [Running],
      console = [], trace = []\<rparr>"

section \<open>An Evaluate phase\<close>

text \<open>
  The indices of the predictions recorded since the state \<open>s0\<close>; the index a worker
  has claimed and not yet scored; whether a worker has arrived at the barrier; and the
  invariant of an Evaluate phase that started in \<open>s0\<close>: recorded and claimed indices
  together are the first indices of the evaluation suffix, each once.
\<close>

fun recorded_indices :: "event list \<Rightarrow> nat list" where
  "recorded_indices [] = []"
| "recorded_indices (Prediction_recorded index score # evs) = index # recorded_indices evs"
| "recorded_indices (ev # evs) = recorded_indices evs"

definition new_records :: "scheduler \<Rightarrow> scheduler \<Rightarrow> nat list" where
  "new_records s0 s = recorded_indices (drop (length (trace s0)) (trace s))"

definition claimed_by :: "worker \<Rightarrow> nat multiset" where
  "claimed_by w = (case w of Claimed index \<Rightarrow> {#index#} | _ \<Rightarrow> {#})"

definition arrived :: "worker \<Rightarrow> nat" where
  "arrived w = (if w = Waiting then 1 else 0)"

definition evaluate_inv :: "sample list \<Rightarrow> scheduler \<Rightarrow> scheduler \<Rightarrow> bool" where
  "evaluate_inv data s0 s \<longleftrightarrow>
     \<not> train s
     \<and> connections s = connections s0
     \<and> length (workers s) = length (workers s0)
     \<and> Undefined_behaviour \<notin> set (workers s)
     \<and> length (predictions s) = length data - train_cutoff_index data
     \<and> length (trace s0) \<le> length (trace s)
     \<and> mset (new_records s0 s) + sum_list (map claimed_by (workers s))
         = mset [train_cutoff_index data..<
                 train_cutoff_index data + min (nat (reps s)) (length data - train_cutoff_index data)]
     \<and> (\<forall>i\<in>set (new_records s0 s).
           predictions s ! (i - train_cutoff_index data)
             = compute_score (compute_nodes (connections s0) (data ! i)))
     \<and> 0 \<le> reps s
     \<and> reps s \<le> int (length data - train_cutoff_index data) + int (sum_list (map arrived (workers s)))
     \<and> (Waiting \<in> set (workers s) \<longrightarrow> int (length data - train_cutoff_index data) \<le> reps s)"

text \<open>
  A bound on the steps the workers can still take in the phase: a worker that is
  \<open>Released\<close> or holds a claimed index has one step before it is back at the head
  of its loop, and every pass through the head of the loop increments the counter.
\<close>

definition busy :: "worker \<Rightarrow> nat" where
  "busy w = (case w of Claimed index \<Rightarrow> 1 | Released \<Rightarrow> 1 | _ \<Rightarrow> 0)"

definition remaining_steps :: "sample list \<Rightarrow> scheduler \<Rightarrow> nat" where
  "remaining_steps data s =
     2 * (length data - train_cutoff_index data + length (workers s) - nat (reps s))
     + sum_list (map busy (workers s))"

text \<open>
  A dataset of twenty rows (cutoff 18, two evaluation rows) and a pool of two workers
  released into an Evaluate phase.
\<close>

definition example_rows :: "sample list" where
  "example_rows = replicate 20 (input_row 2 5000 0)"

definition example_pool :: scheduler where
  "example_pool =
     \<lparr>connections = constant_tensor (1 / 10),
      updates = [constant_tensor 1, constant_tensor 1], train = False,
      reps = 0, excess_reps = 0, predictions = [0, 0], workers = [Released, Released],
      console = [], trace = [Prompt]\<rparr>"

section \<open>Properties of the numeric functions\<close>

lemma pow_2: "pow 2 x = x * x"
proof -
  have p0: "pow 0 x = 1" by (simp add: pow.simps)
  have "pow 1 x = x" by (subst pow.simps) (simp add: p0)
  then show ?thesis by (subst pow.simps) simp
qed



text \<open>
  C9. For every real \<open>x\<close>, the backward pass's formula \<open>(0.5 + y) (0.5 - y)\<close> at
  \<open>y = logistic x\<close> is the derivative \<open>e\<^sup>x / (1 + e\<^sup>x)\<^sup>2\<close> that
  \<open>derivative_logistic\<close> computes at \<open>x\<close>.
\<close>

theorem derivative_logistic_from_logistic_correct:
  "derivative_logistic_from_logistic (logistic x) = derivative_logistic x"
proof -
  have pos: "0 < exp x" by simp
  have e: "exp (- x) = 1 / exp x" by (simp add: exp_minus field_simps)
  have ne: "1 + exp x \<noteq> 0" using pos by linarith
  have ne': "exp x + 1 \<noteq> 0" using pos by linarith
  have s: "1 / (1 + exp (- x)) = exp x / (1 + exp x)"
    unfolding e using pos ne by (simp add: field_simps)
  have "derivative_logistic_from_logistic (logistic x)
      = (exp x / (1 + exp x)) * (1 - exp x / (1 + exp x))"
    by (simp add: derivative_logistic_from_logistic_def logistic_def s)
  also have "\<dots> = exp x / ((1 + exp x) * (1 + exp x))"
    using ne by (simp add: field_simps)
  also have "\<dots> = derivative_logistic x"
    by (simp add: derivative_logistic_def pow_2 Let_def)
  finally show ?thesis .
qed

text \<open>
  C8. For every value of \<open>hardware_concurrency\<close>, the pool size is the 32-bit wrapped
  difference \<open>hardware_concurrency - 1\<close>, raised to 1 when that difference is 0: it is
  \<open>2\<^sup>3\<^sup>2 - 1\<close> for 0, 1 for 1, and \<open>hardware_concurrency - 1\<close> otherwise.
\<close>

theorem thread_count_value:
  "unat (thread_count hc) = max 1 ((unat hc + (2 ^ 32 - 1)) mod 2 ^ 32)
   \<and> thread_count 0 = 4294967295
   \<and> thread_count 1 = 1
   \<and> 1 \<le> unat (thread_count hc)"
proof -
  have sub: "unat (hc - 1) = (unat hc + (2 ^ 32 - 1)) mod 2 ^ 32"
  proof -
    have "hc - 1 = hc + 4294967295" by simp
    then have "unat (hc - 1) = unat (hc + 4294967295)" by (rule arg_cong)
    also have "\<dots> = (unat hc + unat (4294967295 :: 32 word)) mod 2 ^ 32"
      by (simp add: unat_word_ariths)
    finally show ?thesis by simp
  qed
  have mx: "unat (max 1 (hc - 1)) = max 1 (unat (hc - 1))"
    by (simp add: max_def word_le_nat_alt)
  show ?thesis
    unfolding thread_count_def mx sub by simp
qed

section \<open>The forward pass\<close>


lemma depth_range: "[1..<depth] = [1, 2, 3, 4]"
  by (simp add: depth_def upt_rec)


lemma length_compute_nodes: "length (compute_nodes c e) = depth"
  unfolding compute_nodes_def depth_range by (simp add: depth_def)



section \<open>The histogram\<close>

lemma to_size_t_bucket:
  assumes "0 \<le> p" "p < 1"
  shows "\<exists>b. to_size_t (p * real bucket_count) = Some b \<and> b < bucket_count"
proof -
  let ?x = "p * real bucket_count"
  have x0: "0 \<le> ?x" using assms by (simp add: bucket_count_def)
  have x1: "?x < 1000" using assms by (simp add: bucket_count_def)
  have f0: "0 \<le> \<lfloor>?x\<rfloor>" using x0 by simp
  have f1: "\<lfloor>?x\<rfloor> < 1000" using x1 by linarith
  have "to_size_t ?x = Some (nat \<lfloor>?x\<rfloor>)"
    using x0 f0 f1 by (simp add: to_size_t_def Let_def)
  moreover have "nat \<lfloor>?x\<rfloor> < bucket_count"
    using f0 f1 unfolding bucket_count_def by linarith
  ultimately show ?thesis by simp
qed

lemma to_size_t_label:
  assumes "t = 0 \<or> t = 1"
  shows "\<exists>c. to_size_t t = Some c \<and> c < 2"
  using assms by (auto simp: to_size_t_def)

lemma to_size_t_one: "to_size_t (1 * real bucket_count) = Some bucket_count"
  by (simp add: to_size_t_def bucket_count_def)

lemma fill_histogram_in_bounds:
  assumes "\<forall>i\<in>set indices. 0 \<le> scores ! i \<and> scores ! i < 1"
      and "\<forall>i\<in>set indices. data ! i ! full_variable_count = 0 \<or> data ! i ! full_variable_count = 1"
  shows "\<exists>h. fill_histogram fb scores data indices histogram = Inr h"
  using assms
proof (induction indices arbitrary: histogram)
  case Nil
  show ?case by simp
next
  case (Cons i rest)
  from Cons.prems obtain b where b: "to_size_t (scores ! i * real bucket_count) = Some b" "b < bucket_count"
    using to_size_t_bucket [of "scores ! i"] by auto
  from Cons.prems obtain c where c: "to_size_t (data ! i ! full_variable_count) = Some c" "c < 2"
    using to_size_t_label [of "data ! i ! full_variable_count"] by auto
  have rest: "\<And>h. \<exists>h'. fill_histogram fb scores data rest h = Inr h'"
    using Cons.IH Cons.prems by simp
  show ?case
    using b c rest by (simp add: Let_def)
qed

text \<open>
  C10. In \<open>create_histogram\<close>, when every prediction lies in \<open>[0, 1)\<close> every
  bucket index \<open>static_cast<std::size_t>(prediction * bucket_count)\<close> is below
  \<open>bucket_count\<close>, and with scores that are 0 or 1 the whole loop stays in bounds; a
  prediction of exactly 1 gives the index \<open>bucket_count\<close>, one past the end.
\<close>

theorem histogram_bucket_in_bounds:
  "((\<forall>p\<in>set scores. 0 \<le> p \<and> p < 1) \<longrightarrow>
      (\<forall>p\<in>set scores. \<exists>b. to_size_t (p * real bucket_count) = Some b \<and> b < bucket_count))
   \<and> ((\<forall>p\<in>set scores. 0 \<le> p \<and> p < 1) \<and> length scores = length data
        \<and> (\<forall>e\<in>set data. e ! full_variable_count = 0 \<or> e ! full_variable_count = 1) \<longrightarrow>
      (\<exists>h. create_histogram scores data = Inr h))
   \<and> to_size_t (1 * real bucket_count) = Some bucket_count
   \<and> create_histogram [1] [e] = Inl Index_out_of_range"
proof (intro conjI impI)
  assume "\<forall>p\<in>set scores. 0 \<le> p \<and> p < 1"
  then show "\<forall>p\<in>set scores. \<exists>b. to_size_t (p * real bucket_count) = Some b \<and> b < bucket_count"
    using to_size_t_bucket by blast
next
  assume a: "(\<forall>p\<in>set scores. 0 \<le> p \<and> p < 1) \<and> length scores = length data
        \<and> (\<forall>e\<in>set data. e ! full_variable_count = 0 \<or> e ! full_variable_count = 1)"
  then have "\<forall>i\<in>set [0..<length scores]. 0 \<le> scores ! i \<and> scores ! i < 1"
    by simp
  moreover from a have "\<forall>i\<in>set [0..<length scores].
      data ! i ! full_variable_count = 0 \<or> data ! i ! full_variable_count = 1"
    by simp
  ultimately show "\<exists>h. create_histogram scores data = Inr h"
    using a fill_histogram_in_bounds by (simp add: create_histogram_def)
next
  show "to_size_t (1 * real bucket_count) = Some bucket_count"
    by (rule to_size_t_one)
next
  have "to_size_t (1 * real bucket_count) = Some 1000"
    by (simp add: to_size_t_def bucket_count_def)
  then show "create_histogram [1] [e] = Inl Index_out_of_range"
    by (simp add: create_histogram_def Let_def bucket_count_def split: option.splits)
qed

theorem histogram_bucket_in_bounds_witness:
  "to_size_t (0.9995 * real bucket_count) = Some 999
   \<and> (\<exists>h. create_histogram [0.9995, 0] [input_row 1 5000 0, input_row 1 5619.6 1] = Inr h)"
proof -
  have row: "\<And>d s. input_row 1 d s ! full_variable_count = s"
    by (simp add: input_row_def variable_count_def full_variable_count_def nth_append)
  have t: "to_size_t (0.9995 * real bucket_count) = Some 999"
    by (simp add: to_size_t_def bucket_count_def Let_def)
  have "\<exists>h. create_histogram [0.9995, 0] [input_row 1 5000 0, input_row 1 5619.6 1] = Inr h"
    using histogram_bucket_in_bounds [of "[0.9995, 0]" "[input_row 1 5000 0, input_row 1 5619.6 1]"]
    by (simp add: row)
  with t show ?thesis by (rule conjI)
qed

section \<open>The label-consistency filter\<close>

lemma input_row_score: "input_row x d s ! full_variable_count = s"
  by (simp add: input_row_def variable_count_def full_variable_count_def nth_append)

lemma in_window_input_row: "in_window (input_row x d s) \<longleftrightarrow> \<bar>d - 5619.6\<bar> < 300"
  by (simp add: in_window_def input_row_def variable_count_def full_variable_count_def nth_append)

lemma is_background_input_row: "is_background (input_row x d s) \<longleftrightarrow> s = 0"
  by (simp add: is_background_def input_row_score)

lemma erased_input_row:
  "erased (input_row x d s) \<longleftrightarrow> s \<noteq> (if \<bar>d - 5619.6\<bar> < 300 then 1 else 0)"
  by (auto simp: erased_def input_row_score in_window_input_row)

lemma input_row_eq_iff: "input_row x d s = input_row x d' s' \<longleftrightarrow> d = d' \<and> s = s'"
  by (simp add: input_row_def)

lemma erased_iff: "erased e \<longleftrightarrow> e ! full_variable_count \<noteq> (if in_window e then 1 else 0)"
  by (auto simp: erased_def)

text \<open>
  C1, as stated, fails: a simulated row (score 1) inside the window is retained although
  it is not background, and a real row (score 0) inside the window is dropped.
\<close>

theorem filter_consistency_counterexample:
  "input_row 1 5619.6 1 \<in> set (erase_inconsistent [input_row 1 5619.6 1, input_row 1 5619.6 0])
   \<and> in_window (input_row 1 5619.6 1)
   \<and> \<not> is_background (input_row 1 5619.6 1)
   \<and> input_row 1 5619.6 0 \<notin> set (erase_inconsistent [input_row 1 5619.6 1, input_row 1 5619.6 0])
   \<and> in_window (input_row 1 5619.6 0)
   \<and> is_background (input_row 1 5619.6 0)"
  by (simp add: erase_inconsistent_def erased_input_row in_window_input_row
        is_background_input_row input_row_eq_iff)

text \<open>
  C1, amended. A row is retained by the filter exactly when its score is 1 inside the
  window and 0 outside it. So for every retained row the discriminant lies inside the
  window if and only if the row is signal (score 1, from the simulated files), and
  outside it if and only if the row is background (score 0, from the real-data files).
\<close>

theorem filter_retains_signal_in_window:
  "(e \<in> set (erase_inconsistent data) \<longleftrightarrow>
      e \<in> set data \<and> e ! full_variable_count = (if in_window e then 1 else 0))
   \<and> (e \<in> set (erase_inconsistent data) \<longrightarrow>
        (in_window e \<longleftrightarrow> e ! full_variable_count = 1)
        \<and> (in_window e \<longleftrightarrow> \<not> is_background e))"
  by (auto simp: erase_inconsistent_def erased_iff is_background_def)

theorem filter_retains_signal_in_window_witness:
  "input_row 1 5619.6 1 \<in> set (erase_inconsistent [input_row 1 5619.6 1, input_row 1 5619.6 0])
   \<and> in_window (input_row 1 5619.6 1)
   \<and> input_row 1 5619.6 1 ! full_variable_count = 1
   \<and> input_row 1 5000 0 \<in> set (erase_inconsistent [input_row 1 5000 0])
   \<and> \<not> in_window (input_row 1 5000 0)
   \<and> is_background (input_row 1 5000 0)"
proof -
  have w1: "in_window (input_row 1 5619.6 1)" and w0: "\<not> in_window (input_row 1 5000 0)"
    by (simp_all add: in_window_input_row)
  have in1: "input_row 1 5619.6 1 \<in> set [input_row 1 5619.6 1, input_row 1 5619.6 0]"
    by (simp only: list.set insert_iff simp_thms)
  have sc1: "input_row 1 5619.6 1 ! full_variable_count = (if in_window (input_row 1 5619.6 1) then 1 else 0)"
    by (simp only: input_row_score w1 if_True)
  have m1: "input_row 1 5619.6 1 \<in> set (erase_inconsistent [input_row 1 5619.6 1, input_row 1 5619.6 0])"
    using filter_retains_signal_in_window
      [of "input_row 1 5619.6 1" "[input_row 1 5619.6 1, input_row 1 5619.6 0]"] in1 sc1
    by blast
  have m0: "input_row 1 5000 0 \<in> set (erase_inconsistent [input_row 1 5000 0])"
    using filter_retains_signal_in_window [of "input_row 1 5000 0" "[input_row 1 5000 0]"] w0
    by (simp add: input_row_score)
  have "input_row 1 5619.6 1 ! full_variable_count = 1"
    by (simp add: input_row_score)
  moreover have "is_background (input_row 1 5000 0)"
    by (simp add: is_background_input_row)
  ultimately show ?thesis
    using w1 w0 m1 m0 by blast
qed

section \<open>Loading\<close>

lemma length_resize: "length (resize data n) = n"
  by (simp add: resize_def)

lemma read_variable_mismatch:
  assumes "length data \<noteq> old_size"
      and "old_size + length (uncompress file (variable_names ! v)) \<noteq> length data"
  shows "read_variable file old_size v data =
           Inl (Inconsistent_variable_counts (get_path file) old_size
                  (length (uncompress file (variable_names ! v))) (length data) (variable_names ! v))"
  using assms by (simp add: read_variable_def Let_def)

lemma read_variable_Inl_iff:
  "(\<exists>err. read_variable file old_size v data = Inl err) \<longleftrightarrow>
     length data \<noteq> old_size \<and> old_size + length (uncompress file (variable_names ! v)) \<noteq> length data"
  by (auto simp: read_variable_def Let_def length_resize)

lemma read_variables_append:
  "read_variables file old_size (xs @ ys) data =
     (case read_variables file old_size xs data of
        Inl err \<Rightarrow> Inl err
      | Inr data' \<Rightarrow> read_variables file old_size ys data')"
  by (induction xs arbitrary: data) (auto split: sum.splits)

lemma read_sources_append:
  "read_sources order contents (xs @ ys) data =
     (case read_sources order contents xs data of
        Inl err \<Rightarrow> Inl err
      | Inr data' \<Rightarrow> read_sources order contents ys data')"
  by (induction xs arbitrary: data) (auto split: sum.splits)

text \<open>
  C7. While a file is loaded, a column whose length disagrees with the size of the
  file's block (\<open>old_size + variables.size() != data.size()\<close> after the guarded
  resize) makes \<open>read_variable\<close> exit with the diagnostic that names the file, the
  previous count, the column's count, the expected total and the variable;
  \<open>read_from_file\<close> and \<open>create_data\<close> end with that exit whatever the
  remaining columns and files hold.
\<close>

theorem inconsistent_variable_count_is_fatal:
  assumes "sources = earlier @ (path, score) # later"
      and "read_sources order contents earlier [] = Inr data"
      and "order = before @ v # after"
      and "read_variables \<lparr>get_path = path, uncompress = contents path\<rparr> (length data) before data
             = Inr data1"
      and "length data + length (contents path (variable_names ! v))
             \<noteq> length (if length data1 = length data
                          then resize data1 (length data + length (contents path (variable_names ! v)))
                          else data1)"
  shows "read_variable \<lparr>get_path = path, uncompress = contents path\<rparr> (length data) v data1
           = Inl (Inconsistent_variable_counts path (length data)
                    (length (contents path (variable_names ! v))) (length data1)
                    (variable_names ! v))
         \<and> read_from_file order \<lparr>get_path = path, uncompress = contents path\<rparr> score data
           = Inl (Inconsistent_variable_counts path (length data)
                    (length (contents path (variable_names ! v))) (length data1)
                    (variable_names ! v))
         \<and> create_data order contents shuffle
           = Inl (Inconsistent_variable_counts path (length data)
                    (length (contents path (variable_names ! v))) (length data1)
                    (variable_names ! v))"
proof -
  let ?file = "\<lparr>get_path = path, uncompress = contents path\<rparr>"
  let ?err = "Inconsistent_variable_counts path (length data)
                (length (contents path (variable_names ! v))) (length data1) (variable_names ! v)"
  have sized: "length data1 \<noteq> length data"
    using assms(5) by (auto simp: length_resize)
  with assms(5) have differs:
    "length data + length (contents path (variable_names ! v)) \<noteq> length data1"
    by simp
  have one: "read_variable ?file (length data) v data1 = Inl ?err"
    using read_variable_mismatch [of data1 "length data" ?file v] sized differs by simp
  have many: "read_variables ?file (length data) order data = Inl ?err"
    unfolding assms(3) by (simp add: read_variables_append assms(4) one)
  have whole: "read_from_file order ?file score data = Inl ?err"
    by (simp add: read_from_file_def Let_def many)
  have "read_sources order contents sources [] = Inl ?err"
    unfolding assms(1) by (simp add: read_sources_append assms(2) whole)
  then have "create_data order contents shuffle = Inl ?err"
    by (simp add: create_data_def)
  with one whole show ?thesis by simp
qed

theorem inconsistent_variable_count_is_fatal_witness:
  "create_data [0, 1, 2, 3, 4, 5, 6, 7, 8, 9, 10, 11, 12]
     (\<lambda>path name. if name = ''h1_P'' then [1, 2] else [1]) id
   = Inl (Inconsistent_variable_counts ''../data/Lb2pKmm_mgUp_2018.root'' 0 2 1 ''h1_P'')"
proof -
  let ?contents = "\<lambda>(path :: string) name. if name = ''h1_P'' then [1, 2] else [1 :: real]"
  let ?path = "''../data/Lb2pKmm_mgUp_2018.root''"
  let ?later = "[(''../data/Lb2pKmm_sim_mgUp_2018.root'', True),
      (''../data/Lb2pKmm_mgDn_2018.root'', False),
      (''../data/Lb2pKmm_sim_mgDn_2018.root'', True)]"
  let ?data1 = "[(replicate (full_variable_count + 1) (0 :: real))[0 := 1]]"
  have names: "variable_names ! 0 = ''Lres_IPCHI2_OWNPV''" "variable_names ! Suc 0 = ''h1_P''"
    by (simp_all add: variable_names_def)
  have src: "sources = [] @ (?path, False) # ?later"
    by (simp add: sources_def)
  have rs: "read_sources [0, 1, 2, 3, 4, 5, 6, 7, 8, 9, 10, 11, 12] ?contents [] [] = Inr []"
    by simp
  have ord: "[0, 1, 2, 3, 4, 5, 6, 7, 8, 9, 10, 11, 12] = [0] @ 1 # [2, 3, 4, 5, 6, 7, 8, 9, 10, 11, 12 :: nat]"
    by simp
  have first: "read_variables \<lparr>get_path = ?path, uncompress = ?contents ?path\<rparr> (length ([] :: sample list)) [0] []
      = Inr ?data1"
    by (simp add: read_variable_def resize_def names Let_def)
  have ne: "length ([] :: sample list) + length (?contents ?path (variable_names ! 1))
      \<noteq> length (if length ?data1 = length ([] :: sample list)
                   then resize ?data1 (length ([] :: sample list)
                                        + length (?contents ?path (variable_names ! 1)))
                   else ?data1)"
    by (simp add: names)
  show ?thesis
    using inconsistent_variable_count_is_fatal [OF src rs ord first ne, of id]
    by (simp add: names)
qed

section \<open>Normalization\<close>

lemma foldl_leftmost_max:
  "proj (foldl (\<lambda>m e. if proj m < proj e then e else m) x rest) = fold max (map proj rest) (proj x)"
  for proj :: "'a \<Rightarrow> real"
proof (induction rest arbitrary: x)
  case Nil
  show ?case by simp
next
  case (Cons y ys)
  have "proj (if proj x < proj y then y else x) = max (proj y) (proj x)"
    by (simp add: max_def)
  then show ?case by (simp add: Cons.IH)
qed

lemma ranges_max_Cons:
  "\<exists>m. ranges_max proj (x # rest) = Some m \<and> proj m = Max (proj ` set (x # rest))"
proof -
  have "Max (set (proj x # map proj rest)) = fold max (map proj rest) (proj x)"
    by (rule Max.set_eq_fold)
  then show ?thesis
    by (simp add: ranges_max_def foldl_leftmost_max)
qed

lemma normalize_variable_result:
  "normalize_variable v data =
     (if data = [] then Inl Max_of_empty_range
      else if column_max v data = 0 then Inl Division_by_zero
      else Inr (map (\<lambda>e. e[v := e ! v / column_max v data]) data))"
proof (cases data)
  case Nil
  then show ?thesis by (simp add: normalize_variable_def ranges_max_def)
next
  case (Cons x rest)
  obtain m where m: "ranges_max (\<lambda>e. e ! v) (x # rest) = Some m"
      "m ! v = Max ((\<lambda>e. e ! v) ` set (x # rest))"
    using ranges_max_Cons [of "\<lambda>e. e ! v" x rest] by blast
  show ?thesis
    unfolding Cons normalize_variable_def m(1) column_max_def
    by (simp add: m(2) Let_def)
qed

lemma column_max_other:
  assumes "w \<noteq> v"
  shows "column_max w (map (\<lambda>e. e[v := f e]) data) = column_max w data"
proof -
  have "(\<lambda>e. e ! w) ` set (map (\<lambda>e. e[v := f e]) data) = (\<lambda>e. e ! w) ` set data"
    using assms by (auto simp: image_iff)
  then show ?thesis by (simp add: column_max_def)
qed

lemma normalize_variables_result:
  assumes "distinct vs"
      and "\<forall>e\<in>set data. \<forall>v\<in>set vs. v < length e"
      and "data \<noteq> []"
      and "\<forall>v\<in>set vs. column_max v data \<noteq> 0"
  shows "normalize_variables vs data =
           Inr (map (\<lambda>e. map (\<lambda>w. if w \<in> set vs then e ! w / column_max w data else e ! w)
                        [0..<length e]) data)"
  using assms
proof (induction vs arbitrary: data)
  case Nil
  have "\<And>e :: real list. map (\<lambda>w. e ! w) [0..<length e] = e"
    by (simp add: map_nth)
  then show ?case by simp
next
  case (Cons v vs)
  let ?d1 = "map (\<lambda>e. e[v := e ! v / column_max v data]) data"
  have one: "normalize_variable v data = Inr ?d1"
    using Cons.prems by (simp add: normalize_variable_result)
  have cm: "\<And>w. w \<in> set vs \<Longrightarrow> column_max w ?d1 = column_max w data"
    using Cons.prems(1) by (intro column_max_other) auto
  have ih: "normalize_variables vs ?d1 =
      Inr (map (\<lambda>e. map (\<lambda>w. if w \<in> set vs then e ! w / column_max w ?d1 else e ! w)
                   [0..<length e]) ?d1)"
  proof (rule Cons.IH)
    show "distinct vs" using Cons.prems(1) by simp
    show "\<forall>e\<in>set ?d1. \<forall>v\<in>set vs. v < length e" using Cons.prems(2) by simp
    show "?d1 \<noteq> []" using Cons.prems(3) by simp
    show "\<forall>v\<in>set vs. column_max v ?d1 \<noteq> 0" using Cons.prems(4) cm by simp
  qed
  have rows: "\<And>e. e \<in> set data \<Longrightarrow>
      map (\<lambda>w. if w \<in> set vs then e[v := e ! v / column_max v data] ! w / column_max w ?d1
                else e[v := e ! v / column_max v data] ! w) [0..<length e]
      = map (\<lambda>w. if w \<in> set (v # vs) then e ! w / column_max w data else e ! w) [0..<length e]"
  proof -
    fix e assume e: "e \<in> set data"
    have v: "v < length e" "v \<notin> set vs" using Cons.prems(1,2) e by auto
    show "map (\<lambda>w. if w \<in> set vs then e[v := e ! v / column_max v data] ! w / column_max w ?d1
                else e[v := e ! v / column_max v data] ! w) [0..<length e]
      = map (\<lambda>w. if w \<in> set (v # vs) then e ! w / column_max w data else e ! w) [0..<length e]"
    proof (rule map_cong [OF refl])
      fix w assume "w \<in> set [0..<length e]"
      then show "(if w \<in> set vs then e[v := e ! v / column_max v data] ! w / column_max w ?d1
                else e[v := e ! v / column_max v data] ! w)
           = (if w \<in> set (v # vs) then e ! w / column_max w data else e ! w)"
        using v cm by (cases "w = v") auto
    qed
  qed
  show ?case
    by (simp add: one ih rows cong: map_cong)
qed

lemma nth_map_upt_row: "v < length e \<Longrightarrow> map f [0..<length e] ! v = f v"
  by simp

lemma column_max_image:
  assumes "data \<noteq> []" and "0 < k"
  shows "Max ((\<lambda>e. e ! v / k) ` set data) = column_max v data / k"
proof -
  have "mono (\<lambda>x :: real. x / k)"
    using assms(2) by (simp add: mono_def divide_right_mono)
  then have "(\<lambda>x. x / k) (Max ((\<lambda>e. e ! v) ` set data)) = Max ((\<lambda>x. x / k) ` ((\<lambda>e. e ! v) ` set data))"
    using assms(1) by (intro mono_Max_commute) auto
  then show ?thesis
    by (simp add: column_max_def image_image)
qed

text \<open>
  C4, amended. For a non-empty dataset in which no model-input feature has maximum 0,
  normalization succeeds and divides every value of each of the \<open>variable_count\<close>
  model inputs by that feature's own maximum over the dataset; the discriminant and the
  score are left as they are; and for every feature whose maximum is positive the
  signs are preserved and the maximum after normalization is exactly 1.
\<close>

theorem normalization_by_positive_maximum:
  assumes "\<forall>e\<in>set data. length e = full_variable_count + 1"
      and "data \<noteq> []"
      and "\<forall>v<variable_count. column_max v data \<noteq> 0"
  shows "\<exists>normalized.
           normalize_variables [0..<variable_count] data = Inr normalized
           \<and> length normalized = length data
           \<and> (\<forall>v<variable_count.
                 (\<forall>n<length data. normalized ! n ! v = data ! n ! v / column_max v data)
                 \<and> (0 < column_max v data \<longrightarrow>
                       column_max v normalized = 1
                       \<and> (\<forall>n<length data. sgn (normalized ! n ! v) = sgn (data ! n ! v))))
           \<and> (\<forall>n<length data. \<forall>w<full_variable_count + 1. variable_count \<le> w \<longrightarrow>
                 normalized ! n ! w = data ! n ! w)"
proof -
  let ?row = "\<lambda>e. map (\<lambda>w. if w \<in> set [0..<variable_count] then e ! w / column_max w data else e ! w)
                    [0..<length e]"
  let ?normalized = "map ?row data"
  have len: "\<And>e. e \<in> set data \<Longrightarrow> length e = full_variable_count + 1"
    using assms(1) by simp
  have result: "normalize_variables [0..<variable_count] data = Inr ?normalized"
  proof (rule normalize_variables_result)
    show "distinct [0..<variable_count]" by simp
    show "\<forall>e\<in>set data. \<forall>v\<in>set [0..<variable_count]. v < length e"
      using len by (auto simp: variable_count_def)
    show "data \<noteq> []" by (rule assms(2))
    show "\<forall>v\<in>set [0..<variable_count]. column_max v data \<noteq> 0"
      using assms(3) by simp
  qed
  have vlen: "\<And>e v. e \<in> set data \<Longrightarrow> v < full_variable_count + 1 \<Longrightarrow> v < length e"
    using len by simp
  have row_in: "?row e ! v = e ! v / column_max v data"
    if "e \<in> set data" "v < variable_count" for e v
  proof -
    have "v < full_variable_count + 1" using that(2) by (simp add: variable_count_def)
    with that(1) have "v < length e" by (rule vlen)
    then have "?row e ! v = (if v \<in> set [0..<variable_count] then e ! v / column_max v data else e ! v)"
      by (rule nth_map_upt_row)
    then show ?thesis using that(2) by simp
  qed
  have row_out: "?row e ! w = e ! w"
    if "e \<in> set data" "w < full_variable_count + 1" "variable_count \<le> w" for e w
  proof -
    from that(1,2) have "w < length e" by (rule vlen)
    then have "?row e ! w = (if w \<in> set [0..<variable_count] then e ! w / column_max w data else e ! w)"
      by (rule nth_map_upt_row)
    then show ?thesis using that(3) by simp
  qed
  have nth_in: "\<And>n v. n < length data \<Longrightarrow> v < variable_count \<Longrightarrow>
      ?normalized ! n ! v = data ! n ! v / column_max v data"
    using row_in by simp
  have nth_out: "\<And>n w. n < length data \<Longrightarrow> w < full_variable_count + 1 \<Longrightarrow> variable_count \<le> w \<Longrightarrow>
      ?normalized ! n ! w = data ! n ! w"
    using row_out by simp
  have max1: "column_max v ?normalized = 1" if v: "v < variable_count" and pos: "0 < column_max v data" for v
  proof -
    have "(\<lambda>e. e ! v) ` set ?normalized = (\<lambda>e. e ! v / column_max v data) ` set data"
    proof -
      have "\<And>e. e \<in> set data \<Longrightarrow> ?row e ! v = e ! v / column_max v data"
        using row_in v by blast
      then show ?thesis by (simp add: image_image)
    qed
    then have "column_max v ?normalized = Max ((\<lambda>e. e ! v / column_max v data) ` set data)"
      by (simp add: column_max_def)
    also have "\<dots> = column_max v data / column_max v data"
      using assms(2) pos by (rule column_max_image)
    finally show ?thesis using pos by simp
  qed
  show ?thesis
  proof (intro exI conjI allI impI)
    show "normalize_variables [0..<variable_count] data = Inr ?normalized" by (rule result)
    show "length ?normalized = length data" by simp
  next
    fix v n assume "v < variable_count" "n < length data"
    then show "?normalized ! n ! v = data ! n ! v / column_max v data" by (rule nth_in [rotated])
  next
    fix v assume "v < variable_count" "0 < column_max v data"
    then show "column_max v ?normalized = 1" by (rule max1)
  next
    fix v n assume v: "v < variable_count" and pos: "0 < column_max v data" and n: "n < length data"
    from n v have "?normalized ! n ! v = data ! n ! v / column_max v data" by (rule nth_in)
    then show "sgn (?normalized ! n ! v) = sgn (data ! n ! v)"
      using pos by (simp add: sgn_divide)
  next
    fix n w assume "n < length data" "w < full_variable_count + 1" "variable_count \<le> w"
    then show "?normalized ! n ! w = data ! n ! w" by (rule nth_out)
  qed
qed

lemma length_input_row: "length (input_row x d s) = full_variable_count + 1"
  by (simp add: input_row_def variable_count_def full_variable_count_def)

lemma input_row_nth: "v < variable_count \<Longrightarrow> input_row x d s ! v = x"
  by (simp add: input_row_def nth_append)

lemma column_max_input_rows:
  assumes "v < variable_count"
  shows "column_max v [input_row x d s, input_row y d' s'] = max x y"
  using assms by (simp add: column_max_def input_row_nth max.commute)

lemma normalized_input_row:
  assumes "\<forall>w<variable_count. c w = k"
  shows "map (\<lambda>w. if w \<in> set [0..<variable_count] then input_row x d s ! w / c w
                    else input_row x d s ! w) [0..<length (input_row x d s)]
         = input_row (x / k) d s"
proof (rule nth_equalityI)
  show "length (map (\<lambda>w. if w \<in> set [0..<variable_count] then input_row x d s ! w / c w
                    else input_row x d s ! w) [0..<length (input_row x d s)])
        = length (input_row (x / k) d s)"
    by (simp add: length_input_row)
next
  fix i
  assume "i < length (map (\<lambda>w. if w \<in> set [0..<variable_count] then input_row x d s ! w / c w
                    else input_row x d s ! w) [0..<length (input_row x d s)])"
  then have i: "i < length (input_row x d s)" by simp
  have "map (\<lambda>w. if w \<in> set [0..<variable_count] then input_row x d s ! w / c w
                    else input_row x d s ! w) [0..<length (input_row x d s)] ! i
        = (if i \<in> set [0..<variable_count] then input_row x d s ! i / c i else input_row x d s ! i)"
    using i by (rule nth_map_upt_row)
  also have "\<dots> = input_row (x / k) d s ! i"
  proof (cases "i < variable_count")
    case True
    then show ?thesis using assms by (simp add: input_row_nth)
  next
    case False
    then show ?thesis by (simp add: input_row_def nth_append)
  qed
  finally show "map (\<lambda>w. if w \<in> set [0..<variable_count] then input_row x d s ! w / c w
                    else input_row x d s ! w) [0..<length (input_row x d s)] ! i
        = input_row (x / k) d s ! i" .
qed

lemma normalize_two_input_rows:
  assumes "max x y \<noteq> 0"
  shows "normalize_variables [0..<variable_count] [input_row x d s, input_row y d' s']
         = Inr [input_row (x / max x y) d s, input_row (y / max x y) d' s']"
proof -
  let ?data = "[input_row x d s, input_row y d' s']"
  have cm: "\<forall>w<variable_count. column_max w ?data = max x y"
    by (simp add: column_max_input_rows)
  have "normalize_variables [0..<variable_count] ?data =
      Inr (map (\<lambda>e. map (\<lambda>w. if w \<in> set [0..<variable_count] then e ! w / column_max w ?data else e ! w)
                   [0..<length e]) ?data)"
  proof (rule normalize_variables_result)
    show "distinct [0..<variable_count]" by simp
    show "\<forall>e\<in>set ?data. \<forall>v\<in>set [0..<variable_count]. v < length e"
      by (auto simp: length_input_row variable_count_def)
    show "?data \<noteq> []" by simp
    show "\<forall>v\<in>set [0..<variable_count]. column_max v ?data \<noteq> 0"
      using assms by (simp add: column_max_input_rows)
  qed
  then show ?thesis
    by (simp only: list.map normalized_input_row [OF cm])
qed

text \<open>
  C4, as stated, fails for a feature whose maximum is negative: dividing by it reverses
  the order and the signs, and the maximum after normalization is 2, not 1.
\<close>

theorem normalization_maximum_counterexample:
  "normalize_variables [0..<variable_count] [input_row (- 1) 5000 0, input_row (- 2) 5000 0]
     = Inr [input_row 1 5000 0, input_row 2 5000 0]
   \<and> column_max 0 [input_row 1 5000 0, input_row 2 5000 0] = 2"
proof -
  have "normalize_variables [0..<variable_count] [input_row (- 1) 5000 0, input_row (- 2) 5000 0]
     = Inr [input_row (- 1 / max (- 1) (- 2)) 5000 0, input_row (- 2 / max (- 1) (- 2)) 5000 0]"
    by (rule normalize_two_input_rows) simp
  moreover have "column_max 0 [input_row 1 5000 0, input_row 2 5000 0] = 2"
    by (simp add: column_max_input_rows variable_count_def full_variable_count_def)
  ultimately show ?thesis by simp
qed

theorem normalization_by_positive_maximum_witness:
  "\<exists>normalized.
     normalize_variables [0..<variable_count] [input_row 2 5000 0, input_row 4 5700 1] = Inr normalized
     \<and> normalized ! 0 ! 0 = 1 / 2
     \<and> normalized ! 1 ! 0 = 1
     \<and> column_max 0 normalized = 1"
proof -
  let ?data = "[input_row 2 5000 0, input_row 4 5700 1]"
  have zero: "0 < variable_count" by (simp add: variable_count_def full_variable_count_def)
  have rows: "\<forall>e\<in>set ?data. length e = full_variable_count + 1"
    by (simp add: length_input_row)
  have ne: "?data \<noteq> []" by simp
  have cm: "\<And>v. v < variable_count \<Longrightarrow> column_max v ?data = 4"
    by (simp add: column_max_input_rows)
  then have nz: "\<forall>v<variable_count. column_max v ?data \<noteq> 0" by simp
  obtain normalized where n:
      "normalize_variables [0..<variable_count] ?data = Inr normalized"
      "\<forall>v<variable_count.
          (\<forall>n<length ?data. normalized ! n ! v = ?data ! n ! v / column_max v ?data)
          \<and> (0 < column_max v ?data \<longrightarrow>
                column_max v normalized = 1
                \<and> (\<forall>n<length ?data. sgn (normalized ! n ! v) = sgn (?data ! n ! v)))"
    using normalization_by_positive_maximum [OF rows ne nz] by blast
  from n(2) zero have at0: "\<forall>n<length ?data. normalized ! n ! 0 = ?data ! n ! 0 / column_max 0 ?data"
      and mx: "0 < column_max 0 ?data \<longrightarrow> column_max 0 normalized = 1"
    by blast+
  have "normalized ! 0 ! 0 = 1 / 2"
    using at0 [rule_format, of 0] zero by (simp add: cm input_row_nth)
  moreover have "normalized ! 1 ! 0 = 1"
    using at0 [rule_format, of 1] zero by (simp add: cm input_row_nth)
  moreover have "column_max 0 normalized = 1"
    using mx zero by (simp add: cm)
  ultimately show ?thesis using n(1) by blast
qed

section \<open>The barrier and the training loop\<close>

lemma prompt_preserves:
  "prompt inp s = Inr s' \<Longrightarrow>
     connections s' = connections s \<and> updates s' = updates s \<and> workers s' = workers s
     \<and> predictions s' = predictions s"
proof (induction inp s rule: prompt.induct)
  case (1 s)
  then show ?case by simp
next
  case (2 input number rest s)
  show ?case
  proof (cases "input = CHR ''P''")
    case True
    with 2 show ?thesis by (simp add: log_event_def Let_def)
  next
    case notP: False
    show ?thesis
    proof (cases "input = CHR ''E'' \<or> input = CHR ''R''")
      case True
      with 2(3) notP show ?thesis by (auto simp: log_event_def Let_def split: if_splits)
    next
      case False
      with 2 notP show ?thesis by (simp add: log_event_def Let_def)
    qed
  qed
qed

lemma diagnostics_preserves:
  "diagnostics evaluation_data s = Inr s' \<Longrightarrow>
     connections s' = connections s \<and> updates s' = updates s \<and> workers s' = workers s
     \<and> predictions s' = predictions s \<and> console s' = console s \<and> train s' = train s
     \<and> excess_reps s' = excess_reps s"
  by (auto simp: diagnostics_def log_event_def split: sum.splits)

lemma combine_updates_preserves:
  assumes "combine_updates data s = Inr s'"
  shows "connections s' = foldl add_update (connections s) (updates s)
         \<and> updates s' = updates s \<and> workers s' = workers s \<and> predictions s' = predictions s"
proof -
  let ?s1 = "s\<lparr>connections := foldl add_update (connections s) (updates s)\<rparr>"
  obtain s2 where s2: "(if excess_reps ?s1 = 0
               then (case (if \<not> train ?s1
                           then diagnostics (drop (train_cutoff_index data) data) ?s1
                           else Inr ?s1) of
                       Inl err \<Rightarrow> Inl err
                     | Inr s \<Rightarrow> prompt (console s) s)
               else Inr ?s1) = Inr s2"
    and s': "s' = (s2\<lparr>reps := min (excess_reps s2) 100\<rparr>)
                   \<lparr>excess_reps := excess_reps (s2\<lparr>reps := min (excess_reps s2) 100\<rparr>) - reps (s2\<lparr>reps := min (excess_reps s2) 100\<rparr>)\<rparr>"
    using assms unfolding combine_updates_def Let_def by (auto split: sum.splits)
  have "connections s2 = connections ?s1 \<and> updates s2 = updates ?s1 \<and> workers s2 = workers ?s1
        \<and> predictions s2 = predictions ?s1"
    using s2 prompt_preserves diagnostics_preserves
    by (fastforce split: if_splits sum.splits)
  then show ?thesis unfolding s' by simp
qed

lemma prompt_trace:
  "prompt inp s = Inr s' \<Longrightarrow>
     \<exists>new. trace s' = trace s @ new \<and> (\<forall>c. Connections_printed c \<in> set new \<longrightarrow> c = connections s)"
proof (induction inp s rule: prompt.induct)
  case (1 s)
  then show ?case by simp
next
  case (2 input number rest s)
  show ?case
  proof (cases "input = CHR ''P''")
    case True
    with 2(3) have "prompt rest (log_event (Connections_printed (connections (log_event Prompt s)))
                      (log_event Prompt s)) = Inr s'"
      by (simp add: Let_def)
    from 2(1) [OF refl True this] obtain new where
      "trace s' = trace (log_event (Connections_printed (connections (log_event Prompt s)))
                      (log_event Prompt s)) @ new"
      "\<forall>c. Connections_printed c \<in> set new \<longrightarrow> c = connections s"
      by (auto simp: log_event_def)
    then have "trace s' = trace s @ ([Prompt, Connections_printed (connections s)] @ new)
        \<and> (\<forall>c. Connections_printed c \<in> set ([Prompt, Connections_printed (connections s)] @ new)
              \<longrightarrow> c = connections s)"
      by (auto simp: log_event_def)
    then show ?thesis by blast
  next
    case notP: False
    show ?thesis
    proof (cases "input = CHR ''E''")
      case True
      with 2(3) notP have "trace s' = trace s @ [Prompt]"
        by (auto simp: log_event_def Let_def)
      then show ?thesis by simp
    next
      case notE: False
      show ?thesis
      proof (cases "input = CHR ''R''")
        case True
        with 2(3) notP notE have "trace s' = trace s @ [Prompt, Rep_count_prompt]"
          by (auto simp: log_event_def Let_def)
        then show ?thesis by simp
      next
        case False
        with 2(3) notP notE have "prompt rest (log_event Invalid_input (log_event Prompt s)) = Inr s'"
          by (simp add: Let_def)
        from 2(2) [OF refl notP notE False this] obtain new where
          "trace s' = trace (log_event Invalid_input (log_event Prompt s)) @ new"
          "\<forall>c. Connections_printed c \<in> set new \<longrightarrow> c = connections s"
          by (auto simp: log_event_def)
        then have "trace s' = trace s @ ([Prompt, Invalid_input] @ new)
            \<and> (\<forall>c. Connections_printed c \<in> set ([Prompt, Invalid_input] @ new) \<longrightarrow> c = connections s)"
          by (auto simp: log_event_def)
        then show ?thesis by blast
      qed
    qed
  qed
qed

lemma diagnostics_trace:
  "diagnostics evaluation_data s = Inr s' \<Longrightarrow>
     \<exists>h. trace s' = trace s @ [Histogram_saved h, ROC_curve_saved]"
  by (auto simp: diagnostics_def log_event_def split: sum.splits)

lemma combine_updates_trace:
  assumes "combine_updates data s = Inr s'"
  shows "\<exists>new. trace s' = trace s @ new
           \<and> (\<forall>c. Connections_printed c \<in> set new \<longrightarrow>
                 c = foldl add_update (connections s) (updates s))"
proof -
  let ?s1 = "s\<lparr>connections := foldl add_update (connections s) (updates s)\<rparr>"
  obtain s2 where s2: "(if excess_reps ?s1 = 0
               then (case (if \<not> train ?s1
                           then diagnostics (drop (train_cutoff_index data) data) ?s1
                           else Inr ?s1) of
                       Inl err \<Rightarrow> Inl err
                     | Inr s \<Rightarrow> prompt (console s) s)
               else Inr ?s1) = Inr s2"
    and s': "trace s' = trace s2"
    using assms unfolding combine_updates_def Let_def by (auto split: sum.splits)
  show ?thesis
  proof (cases "excess_reps s = 0")
    case False
    with s2 s' have "trace s' = trace s @ []" by auto
    then show ?thesis by (intro exI [of _ "[]"]) simp
  next
    case zero: True
    show ?thesis
    proof (cases "train s")
      case True
      with s2 zero have "prompt (console ?s1) ?s1 = Inr s2" by simp
      from prompt_trace [OF this] s' show ?thesis by simp
    next
      case False
      with s2 zero obtain sd where
        sd: "diagnostics (drop (train_cutoff_index data) data) ?s1 = Inr sd"
        and p: "prompt (console sd) sd = Inr s2"
        by (auto split: sum.splits)
      from diagnostics_trace [OF sd] obtain h where
        h: "trace sd = trace s @ [Histogram_saved h, ROC_curve_saved]" by auto
      from diagnostics_preserves [OF sd] have c: "connections sd = connections ?s1" by simp
      from prompt_trace [OF p] obtain new where
        "trace s2 = trace sd @ new" "\<forall>c. Connections_printed c \<in> set new \<longrightarrow> c = connections sd"
        by auto
      with h c s' have "trace s' = trace s @ ([Histogram_saved h, ROC_curve_saved] @ new)
          \<and> (\<forall>c. Connections_printed c \<in> set ([Histogram_saved h, ROC_curve_saved] @ new) \<longrightarrow>
                 c = foldl add_update (connections s) (updates s))"
        by auto
      then show ?thesis by blast
    qed
  qed
qed

text \<open>
  C2, amended. The completion function runs only when every worker is blocked at the
  barrier, and a blocked worker does nothing. It folds every worker's gradient buffer
  additively into \<open>connections\<close>, then runs the interactive controller (which
  prints the folded weights), and leaves the gradient buffers as they are; the workers are
  then released. Each worker resets its own buffer to zero in its first step after the
  release, before it starts the next phase.
\<close>

theorem completion_folds_and_workers_reset_after_release:
  "(\<not> all_waiting s \<longrightarrow> complete_phase data s = Inr s)
   \<and> (t < length (workers s) \<and> workers s ! t = Waiting \<longrightarrow>
        step data fb (Worker_step t e) s = Inr s)
   \<and> (all_waiting s \<and> complete_phase data s = Inr s' \<longrightarrow>
        connections s' = foldl add_update (connections s) (updates s)
        \<and> (\<forall>c. Connections_printed c \<in> set (drop (length (trace s)) (trace s')) \<longrightarrow>
               c = foldl add_update (connections s) (updates s))
        \<and> updates s' = updates s
        \<and> workers s' = replicate (length (workers s)) Released
        \<and> (t < length (workers s') \<longrightarrow>
              step data fb (Worker_step t e) s' = Inr (reset_update t s')
              \<and> updates (reset_update t s') = (updates s')[t := zero_update]
              \<and> workers (reset_update t s') ! t = Running
              \<and> connections (reset_update t s') = connections s'))"
proof (intro conjI impI)
  assume "\<not> all_waiting s"
  then show "complete_phase data s = Inr s" by (simp add: complete_phase_def)
next
  assume "t < length (workers s) \<and> workers s ! t = Waiting"
  then show "step data fb (Worker_step t e) s = Inr s" by simp
next
  assume a: "all_waiting s \<and> complete_phase data s = Inr s'"
  then obtain s1 where s1: "combine_updates data s = Inr s1"
    and s': "s' = s1\<lparr>workers := map (\<lambda>w. Released) (workers s1)\<rparr>"
    by (auto simp: complete_phase_def split: sum.splits)
  note p = combine_updates_preserves [OF s1]
  from combine_updates_trace [OF s1] obtain new where
    new: "trace s1 = trace s @ new"
      "\<forall>c. Connections_printed c \<in> set new \<longrightarrow> c = foldl add_update (connections s) (updates s)"
    by auto
  show "connections s' = foldl add_update (connections s) (updates s)"
    using p s' by simp
  show "\<forall>c. Connections_printed c \<in> set (drop (length (trace s)) (trace s')) \<longrightarrow>
               c = foldl add_update (connections s) (updates s)"
    using new s' by simp
  show "updates s' = updates s" using p s' by simp
  show w: "workers s' = replicate (length (workers s)) Released"
    using p s' by (simp add: map_replicate_const)
  {
    assume t: "t < length (workers s')"
    then have "workers s' ! t = Released" using w by simp
    with t show "step data fb (Worker_step t e) s' = Inr (reset_update t s')" by simp
    show "updates (reset_update t s') = (updates s')[t := zero_update]"
      by (simp add: reset_update_def)
    show "workers (reset_update t s') ! t = Running"
      using t by (simp add: reset_update_def)
    show "connections (reset_update t s') = connections s'"
      by (simp add: reset_update_def)
  }
qed

lemma constant_tensor_one_not_zero: "constant_tensor 1 \<noteq> zero_update"
  by (simp add: constant_tensor_def zero_update_def depth_def variable_count_def
        full_variable_count_def)

lemma complete_phase_example_waiting:
  "complete_phase example_data example_waiting =
     Inr \<lparr>connections = add_update (constant_tensor (1 / 10)) (constant_tensor 1),
          updates = [constant_tensor 1], train = True, reps = 5, excess_reps = 0,
          predictions = [0], workers = [Released], console = [],
          trace = [Prompt, Connections_printed (add_update (constant_tensor (1 / 10)) (constant_tensor 1)),
                   Prompt, Rep_count_prompt]\<rparr>"
  by (simp add: complete_phase_def all_waiting_def example_waiting_def combine_updates_def
        log_event_def Let_def)

text \<open>
  C2, as stated, fails: when the completion function has run and the worker is released,
  its gradient buffer still holds what the phase accumulated.
\<close>

theorem completion_leaves_updates_counterexample:
  "map_sum id workers (complete_phase example_data example_waiting) = Inr [Released]
   \<and> map_sum id updates (complete_phase example_data example_waiting) = Inr [constant_tensor 1]
   \<and> constant_tensor 1 \<noteq> zero_update"
  by (simp add: complete_phase_example_waiting constant_tensor_one_not_zero)

theorem completion_folds_and_workers_reset_after_release_witness:
  "\<exists>s'. complete_phase example_data example_waiting = Inr s'
        \<and> connections s' = add_update (constant_tensor (1 / 10)) (constant_tensor 1)
        \<and> updates s' = [constant_tensor 1]
        \<and> workers s' = [Released]
        \<and> step example_data (1 / 2) (Worker_step 0 0) s' = Inr (reset_update 0 s')
        \<and> updates (reset_update 0 s') = [zero_update]"
proof -
  obtain s' where s': "complete_phase example_data example_waiting = Inr s'"
    using complete_phase_example_waiting by simp
  have aw: "all_waiting example_waiting"
    by (simp add: all_waiting_def example_waiting_def)
  have fields: "connections example_waiting = constant_tensor (1 / 10)"
      "updates example_waiting = [constant_tensor 1]"
      "length (workers example_waiting) = 1"
    by (simp_all add: example_waiting_def)
  from completion_folds_and_workers_reset_after_release
         [of example_waiting example_data 0 "1 / 2" 0 s'] aw s'
  have "connections s' = foldl add_update (connections example_waiting) (updates example_waiting)"
    and "updates s' = updates example_waiting"
    and w: "workers s' = replicate (length (workers example_waiting)) Released"
    and r: "0 < length (workers s') \<longrightarrow>
              step example_data (1 / 2) (Worker_step 0 0) s' = Inr (reset_update 0 s')
              \<and> updates (reset_update 0 s') = (updates s')[0 := zero_update]"
    by blast+
  then show ?thesis using s' by (simp add: fields)
qed

text \<open>
  C3, amended. In Train mode a worker at the head of its inner loop decrements the
  counter atomically and goes on to the forward and backward pass on a drawn index of
  the training prefix if and only if the value of the counter before the decrement
  (what \<open>fetch_sub\<close> returns) is greater than 0, that is, the value after the
  decrement is at least 0; otherwise it goes to the barrier and takes no further step
  in the phase. The pass adds the sample's gradient to the worker's own buffer.
\<close>

theorem train_claim_tests_value_before_decrement:
  "(train s \<and> t < length (workers s) \<and> workers s ! t = Running \<longrightarrow>
      step data fb (Worker_step t e) s = Inr (claim data t e s)
      \<and> reps (claim data t e s) = wrap_ptrdiff (reps s - 1)
      \<and> (0 < reps s \<longrightarrow>
            workers (claim data t e s) ! t =
              Claimed (uniform_distribution 0 (wrap_size_t (int (train_cutoff_index data) - 1)) e)
            \<and> (0 < train_cutoff_index data \<longrightarrow>
                  uniform_distribution 0 (wrap_size_t (int (train_cutoff_index data) - 1)) e
                    < train_cutoff_index data))
      \<and> (reps s \<le> 0 \<longrightarrow> workers (claim data t e s) ! t = Waiting)
      \<and> (- (2 ^ 63) < reps s \<and> reps s < 2 ^ 63 \<longrightarrow>
            (0 < reps s \<longleftrightarrow> 0 \<le> reps (claim data t e s))))
   \<and> (train s \<and> t < length (workers s) \<and> workers s ! t = Claimed index \<and> index < length data \<longrightarrow>
        step data fb (Worker_step t e) s = Inr (process data fb t index s)
        \<and> updates (process data fb t index s) =
            (updates s)[t := backpropagate fb (connections s) (data ! index)
                               (compute_nodes (connections s) (data ! index))
                               (compute_score (compute_nodes (connections s) (data ! index)))
                               (updates s ! t)]
        \<and> workers (process data fb t index s) ! t = Running)
   \<and> (t < length (workers s) \<and> workers s ! t = Waiting \<longrightarrow>
        step data fb (Worker_step t e) s = Inr s)"
proof (intro conjI impI)
  assume a: "train s \<and> t < length (workers s) \<and> workers s ! t = Running"
  then show "step data fb (Worker_step t e) s = Inr (claim data t e s)" by simp
  show "reps (claim data t e s) = wrap_ptrdiff (reps s - 1)"
    using a by (simp add: claim_def Let_def)
  {
    assume "0 < reps s"
    then show "workers (claim data t e s) ! t =
        Claimed (uniform_distribution 0 (wrap_size_t (int (train_cutoff_index data) - 1)) e)"
      using a by (simp add: claim_def Let_def)
    assume c: "0 < train_cutoff_index data"
    have "train_cutoff_index data < 2 ^ 64"
    proof -
      have "wrap_size_t (int (length data) * 9) < 2 ^ 64"
        unfolding wrap_size_t_def by (simp add: nat_less_iff)
      then show ?thesis
        unfolding train_cutoff_index_def by (rule le_less_trans [OF div_le_dividend])
    qed
    with c have "wrap_size_t (int (train_cutoff_index data) - 1) = train_cutoff_index data - 1"
      by (simp add: wrap_size_t_def nat_diff_distrib' of_nat_diff)
    then show "uniform_distribution 0 (wrap_size_t (int (train_cutoff_index data) - 1)) e
                    < train_cutoff_index data"
      using c by (simp add: uniform_distribution_def)
  }
  {
    assume "reps s \<le> 0"
    then show "workers (claim data t e s) ! t = Waiting"
      using a by (simp add: claim_def Let_def)
  }
  {
    assume "- (2 ^ 63) < reps s \<and> reps s < 2 ^ 63"
    then have "wrap_ptrdiff (reps s - 1) = reps s - 1"
      by (simp add: wrap_ptrdiff_def)
    then show "0 < reps s \<longleftrightarrow> 0 \<le> reps (claim data t e s)"
      using a by (auto simp: claim_def Let_def)
  }
next
  assume a: "train s \<and> t < length (workers s) \<and> workers s ! t = Claimed index \<and> index < length data"
  then show "step data fb (Worker_step t e) s = Inr (process data fb t index s)" by simp
  show "updates (process data fb t index s) =
            (updates s)[t := backpropagate fb (connections s) (data ! index)
                               (compute_nodes (connections s) (data ! index))
                               (compute_score (compute_nodes (connections s) (data ! index)))
                               (updates s ! t)]"
    using a by (simp add: process_def Let_def)
  show "workers (process data fb t index s) ! t = Running"
    using a by (simp add: process_def Let_def)
next
  assume "t < length (workers s) \<and> workers s ! t = Waiting"
  then show "step data fb (Worker_step t e) s = Inr s" by simp
qed

lemma train_cutoff_index_example_data: "train_cutoff_index example_data = 1"
  by (simp add: train_cutoff_index_def wrap_size_t_def example_data_def)

lemma length_example_data: "length example_data = 2"
  by (simp add: example_data_def)

lemma claim_example_training:
  "claim example_data 0 7 example_training =
     \<lparr>connections = constant_tensor (1 / 10), updates = [zero_update], train = True,
      reps = 0, excess_reps = 0, predictions = [0], workers = [Claimed 0],
      console = [], trace = []\<rparr>"
  by (simp add: claim_def example_training_def train_cutoff_index_example_data
        uniform_distribution_def wrap_size_t_def wrap_ptrdiff_def Let_def)

text \<open>
  C3, as stated, fails with one rep left: the value after the decrement is 0, not
  greater than 0, and the worker still runs the forward and backward pass.
\<close>

theorem train_claim_counterexample:
  "reps example_training = 1
   \<and> reps (claim example_data 0 7 example_training) = 0
   \<and> workers (claim example_data 0 7 example_training) = [Claimed 0]
   \<and> map_sum id updates
        (run example_data (1 / 2) [Worker_step 0 7, Worker_step 0 7] example_training)
      = Inr [backpropagate (1 / 2) (constant_tensor (1 / 10)) (example_data ! 0)
               (compute_nodes (constant_tensor (1 / 10)) (example_data ! 0))
               (compute_score (compute_nodes (constant_tensor (1 / 10)) (example_data ! 0)))
               zero_update]"
proof -
  have r: "workers example_training = [Running]" "reps example_training = 1"
    by (simp_all add: example_training_def)
  have first: "step example_data (1 / 2) (Worker_step 0 7) example_training
      = Inr (claim example_data 0 7 example_training)"
    by (simp add: r)
  have second: "step example_data (1 / 2) (Worker_step 0 7) (claim example_data 0 7 example_training)
      = Inr (process example_data (1 / 2) 0 0 (claim example_data 0 7 example_training))"
    by (simp add: claim_example_training)
  have "updates (process example_data (1 / 2) 0 0 (claim example_data 0 7 example_training))
      = [backpropagate (1 / 2) (constant_tensor (1 / 10)) (example_data ! 0)
               (compute_nodes (constant_tensor (1 / 10)) (example_data ! 0))
               (compute_score (compute_nodes (constant_tensor (1 / 10)) (example_data ! 0)))
               zero_update]"
    by (simp add: claim_example_training process_def length_example_data Let_def)
  then show ?thesis
    by (simp add: first second r claim_example_training)
qed

theorem train_claim_tests_value_before_decrement_witness:
  "step example_data (1 / 2) (Worker_step 0 7) example_training
     = Inr (claim example_data 0 7 example_training)
   \<and> reps (claim example_data 0 7 example_training) = 0
   \<and> workers (claim example_data 0 7 example_training) ! 0 = Claimed 0
   \<and> step example_data (1 / 2) (Worker_step 0 7) (claim example_data 0 7 example_training)
     = Inr (process example_data (1 / 2) 0 0 (claim example_data 0 7 example_training))
   \<and> workers (process example_data (1 / 2) 0 0 (claim example_data 0 7 example_training)) ! 0
     = Running
   \<and> step example_data (1 / 2) (Worker_step 0 7) example_waiting = Inr example_waiting"
proof -
  have r: "train example_training" "0 < length (workers example_training)"
      "workers example_training ! 0 = Running" "reps example_training = 1"
    by (simp_all add: example_training_def)
  have u: "uniform_distribution 0 (wrap_size_t (int (train_cutoff_index example_data) - 1)) 7 = 0"
    by (simp add: train_cutoff_index_example_data uniform_distribution_def wrap_size_t_def)
  have w: "wrap_ptrdiff 0 = 0"
    by (simp add: wrap_ptrdiff_def)
  have c: "train (claim example_data 0 7 example_training)"
      "0 < length (workers (claim example_data 0 7 example_training))"
      "workers (claim example_data 0 7 example_training) ! 0 = Claimed 0"
      "0 < length example_data"
    by (simp_all add: claim_example_training length_example_data)
  have b: "0 < length (workers example_waiting)" "workers example_waiting ! 0 = Waiting"
    by (simp_all add: example_waiting_def)
  have "step example_data (1 / 2) (Worker_step 0 7) example_training
     = Inr (claim example_data 0 7 example_training)
   \<and> reps (claim example_data 0 7 example_training) = 0
   \<and> workers (claim example_data 0 7 example_training) ! 0 = Claimed 0"
    using train_claim_tests_value_before_decrement
            [of example_training 0 example_data "1 / 2" 7 0] r
    by (simp add: u w)
  moreover have "step example_data (1 / 2) (Worker_step 0 7) (claim example_data 0 7 example_training)
     = Inr (process example_data (1 / 2) 0 0 (claim example_data 0 7 example_training))
   \<and> workers (process example_data (1 / 2) 0 0 (claim example_data 0 7 example_training)) ! 0
     = Running"
    using train_claim_tests_value_before_decrement
            [of "claim example_data 0 7 example_training" 0 example_data "1 / 2" 7 0] c
    by blast
  moreover have "step example_data (1 / 2) (Worker_step 0 7) example_waiting = Inr example_waiting"
    using train_claim_tests_value_before_decrement
            [of example_waiting 0 example_data "1 / 2" 7 0] b
    by blast
  ultimately show ?thesis by blast
qed

section \<open>The evaluation loop\<close>

lemma recorded_indices_append:
  "recorded_indices (xs @ ys) = recorded_indices xs @ recorded_indices ys"
  by (induction xs rule: recorded_indices.induct) simp_all

lemma sum_list_map_update:
  fixes f :: "'a \<Rightarrow> 'b::comm_monoid_add"
  shows "t < length ws \<Longrightarrow> sum_list (map f (ws[t := w])) + f (ws ! t) = sum_list (map f ws) + f w"
proof (induction ws arbitrary: t)
  case Nil
  then show ?case by simp
next
  case (Cons a ws)
  show ?case
  proof (cases t)
    case 0
    then show ?thesis by (simp add: ac_simps)
  next
    case (Suc k)
    with Cons.prems have "k < length ws" by simp
    from Cons.IH [OF this] show ?thesis using Suc by (simp add: ac_simps)
  qed
qed

lemma sum_list_map_update_same:
  fixes f :: "'a \<Rightarrow> 'b::cancel_comm_monoid_add"
  assumes "t < length ws" and "f w = f (ws ! t)"
  shows "sum_list (map f (ws[t := w])) = sum_list (map f ws)"
  using sum_list_map_update [OF assms(1), of f w] assms(2) by simp

lemma arrived_le_length: "sum_list (map arrived ws) \<le> length ws"
  by (induction ws) (simp_all add: arrived_def)

lemma claimed_by_member:
  "t < length ws \<Longrightarrow> ws ! t = Claimed i \<Longrightarrow> i \<in># sum_list (map claimed_by ws)"
proof (induction ws arbitrary: t)
  case Nil
  then show ?case by simp
next
  case (Cons a ws)
  then show ?case by (cases t) (auto simp: claimed_by_def)
qed

lemma train_cutoff_index_le: "train_cutoff_index data \<le> length data"
proof -
  have "wrap_size_t (int (length data) * 9) \<le> length data * 9"
  proof -
    have "(int (length data) * 9) mod 2 ^ 64 \<le> int (length data) * 9"
      by (rule zmod_le_nonneg_dividend) simp
    then show ?thesis unfolding wrap_size_t_def by linarith
  qed
  then have "wrap_size_t (int (length data) * 9) div 10 \<le> (length data * 9) div 10"
    by (rule div_le_mono)
  also have "\<dots> \<le> length data" by simp
  finally show ?thesis by (simp add: train_cutoff_index_def)
qed

lemma evaluate_claim:
  assumes "\<not> train s" and "0 \<le> reps s" and "reps s + 1 < 2 ^ 63"
      and "int (train_cutoff_index data) + reps s < 2 ^ 64"
  shows "claim data t e s =
           s\<lparr>reps := reps s + 1,
             workers := (workers s)[t := (if train_cutoff_index data + nat (reps s) < length data
                                          then Claimed (train_cutoff_index data + nat (reps s))
                                          else Waiting)]\<rparr>"
proof -
  have a: "wrap_ptrdiff (reps s + 1) = reps s + 1"
    using assms(2,3) by (simp add: wrap_ptrdiff_def)
  have b: "wrap_size_t (reps s) = nat (reps s)"
    using assms(2,3) by (simp add: wrap_size_t_def)
  have c: "wrap_size_t (int (train_cutoff_index data) + int (nat (reps s)))
      = train_cutoff_index data + nat (reps s)"
    using assms(2,4) by (simp add: wrap_size_t_def nat_add_distrib)
  show ?thesis
    unfolding claim_def Let_def a b c using assms(1) by (simp add: not_less)
qed

lemma set_update_not_member:
  "x \<notin> set ws \<Longrightarrow> x \<noteq> w \<Longrightarrow> x \<notin> set (ws[t := w])"
  using set_update_subset_insert [of ws t w] by auto

lemma evaluate_inv_claim:
  assumes inv: "evaluate_inv data s0 s"
      and t: "t < length (workers s)"
      and running: "workers s ! t = Running"
      and bound: "length data + length (workers s0) + 1 < 2 ^ 63"
  shows "evaluate_inv data s0 (claim data t e s)"
proof -
  define c where "c = train_cutoff_index data"
  define m where "m = length data - c"
  have cn: "c + m = length data"
    using train_cutoff_index_le [of data] by (simp add: c_def m_def)
  note i = inv [unfolded evaluate_inv_def, folded c_def, folded m_def]
  have r0: "0 \<le> reps s" using i by simp
  have rle: "reps s \<le> int m + int (sum_list (map arrived (workers s)))" using i by simp
  have len: "length (workers s) = length (workers s0)" using i by simp
  have "sum_list (map arrived (workers s)) \<le> length (workers s0)"
    using arrived_le_length [of "workers s"] len by simp
  with rle have rP: "reps s \<le> int m + int (length (workers s0))" by linarith
  have "int (length data + length (workers s0) + 1) < int (2 ^ 63)"
    using bound by (simp only: of_nat_less_iff)
  then have small: "int (length data) + int (length (workers s0)) + 1 < 2 ^ 63"
    by simp
  have cn': "int c + int m = int (length data)"
    using cn by (metis of_nat_add)
  have pw: "(2 :: int) ^ 63 < 2 ^ 64" by simp
  have b1: "reps s + 1 < 2 ^ 63"
    using rP small cn' by linarith
  have b2: "int c + reps s < 2 ^ 64"
    using rP small cn' pw by linarith
  let ?w = "if c + nat (reps s) < length data then Claimed (c + nat (reps s)) else Waiting"
  let ?s' = "s\<lparr>reps := reps s + 1, workers := (workers s)[t := ?w]\<rparr>"
  have eq: "claim data t e s = ?s'"
    using i r0 b1 b2 unfolding c_def by (intro evaluate_claim) simp_all
  have nr: "new_records s0 ?s' = new_records s0 s"
    by (simp add: new_records_def)
  have arr: "sum_list (map arrived ((workers s)[t := ?w])) + arrived Running
      = sum_list (map arrived (workers s)) + arrived ?w"
    using sum_list_map_update [OF t, of arrived ?w] running by simp
  have cl: "sum_list (map claimed_by ((workers s)[t := ?w])) + claimed_by Running
      = sum_list (map claimed_by (workers s)) + claimed_by ?w"
    using sum_list_map_update [OF t, of claimed_by ?w] running by simp
  have ms: "mset (new_records s0 s) + sum_list (map claimed_by (workers s))
      = mset [c..<c + min (nat (reps s)) m]" using i by simp
  have wait: "Waiting \<in> set (workers s) \<longrightarrow> int m \<le> reps s" using i by simp
  have P1: "\<not> train ?s'" using i by simp
  have P2: "connections ?s' = connections s0" using i by simp
  have P3: "length (workers ?s') = length (workers s0)" using i by simp
  have P4: "Undefined_behaviour \<notin> set (workers ?s')"
  proof -
    have "Undefined_behaviour \<notin> set (workers s)" using i by simp
    then have "Undefined_behaviour \<notin> set ((workers s)[t := ?w])"
      by (rule set_update_not_member) simp
    then show ?thesis by simp
  qed
  have P5: "length (predictions ?s') = m" using i by simp
  have P6: "length (trace s0) \<le> length (trace ?s')" using i by simp
  have P8: "\<forall>i\<in>set (new_records s0 ?s').
      predictions ?s' ! (i - c) = compute_score (compute_nodes (connections s0) (data ! i))"
    unfolding nr using i by simp
  have P9: "0 \<le> reps ?s'" using r0 by simp
  have P7: "mset (new_records s0 ?s') + sum_list (map claimed_by (workers ?s'))
      = mset [c..<c + min (nat (reps ?s')) m]"
  proof (cases "c + nat (reps s) < length data")
    case True
    then have lt: "nat (reps s) < m" using cn by linarith
    have n1: "nat (reps s + 1) = Suc (nat (reps s))" using r0 by linarith
    from True cl have "sum_list (map claimed_by ((workers s)[t := ?w]))
        = sum_list (map claimed_by (workers s)) + {#c + nat (reps s)#}"
      by (simp add: claimed_by_def)
    then have "mset (new_records s0 ?s') + sum_list (map claimed_by (workers ?s'))
        = mset [c..<c + min (nat (reps s)) m] + {#c + nat (reps s)#}"
      using ms nr by (simp add: ac_simps)
    also have "\<dots> = mset [c..<c + min (nat (reps ?s')) m]"
      using lt by (simp add: n1 min_def)
    finally show ?thesis .
  next
    case False
    then have ge: "m \<le> nat (reps s)" using cn by linarith
    from False cl have "sum_list (map claimed_by ((workers s)[t := ?w]))
        = sum_list (map claimed_by (workers s))"
      by (simp add: claimed_by_def)
    then have "mset (new_records s0 ?s') + sum_list (map claimed_by (workers ?s'))
        = mset [c..<c + min (nat (reps s)) m]"
      using ms nr by simp
    also have "\<dots> = mset [c..<c + min (nat (reps ?s')) m]"
      using ge r0 by (simp add: min_def)
    finally show ?thesis .
  qed
  have P10: "reps ?s' \<le> int m + int (sum_list (map arrived (workers ?s')))"
  proof (cases "c + nat (reps s) < length data")
    case True
    then have "nat (reps s) < m" using cn by linarith
    then have "reps s + 1 \<le> int m" using r0 by linarith
    then show ?thesis by simp
  next
    case False
    with arr have "sum_list (map arrived ((workers s)[t := ?w]))
        = sum_list (map arrived (workers s)) + 1"
      by (simp add: arrived_def)
    with rle show ?thesis by simp
  qed
  have P11: "Waiting \<in> set (workers ?s') \<longrightarrow> int m \<le> reps ?s'"
  proof (cases "c + nat (reps s) < length data")
    case True
    then have lt: "nat (reps s) < m" using cn by linarith
    with wait r0 have "Waiting \<notin> set (workers s)" by auto
    then have "Waiting \<notin> set ((workers s)[t := ?w])"
      using True by (intro set_update_not_member) simp_all
    then show ?thesis by simp
  next
    case False
    then have "m \<le> nat (reps s)" using cn by linarith
    then have "int m \<le> reps s + 1" using r0 by linarith
    then show ?thesis by simp
  qed
  show ?thesis
    unfolding eq evaluate_inv_def
    using P1 P2 P3 P4 P5 P6 P7 P8 P9 P10 P11
    unfolding c_def [symmetric] m_def [symmetric] by blast
qed

lemma count_upt_le_one: "count (mset [a..<b]) x \<le> 1"
proof -
  have "distinct [a..<b]" by simp
  then show ?thesis by (simp only: distinct_count_atmost_1) (simp split: if_splits)
qed

lemma evaluate_inv_process:
  assumes inv: "evaluate_inv data s0 s"
      and t: "t < length (workers s)"
      and claimed: "workers s ! t = Claimed i"
  shows "evaluate_inv data s0 (process data fb t i s)"
proof -
  define c where "c = train_cutoff_index data"
  define m where "m = length data - c"
  define score where "score = compute_score (compute_nodes (connections s) (data ! i))"
  have cn: "c + m = length data"
    using train_cutoff_index_le [of data] by (simp add: c_def m_def)
  note inv' = inv [unfolded evaluate_inv_def, folded c_def, folded m_def]
  have ms: "mset (new_records s0 s) + sum_list (map claimed_by (workers s))
      = mset [c..<c + min (nat (reps s)) m]" using inv' by simp
  have mem: "i \<in># sum_list (map claimed_by (workers s))"
    using t claimed by (rule claimed_by_member)
  then have "i \<in># mset [c..<c + min (nat (reps s)) m]"
    unfolding ms [symmetric] by simp
  then have range: "c \<le> i" "i < c + m" by auto
  then have i_lt: "i < length data" using cn by simp
  have plen: "length (predictions s) = m" using inv' by simp
  have conn: "connections s = connections s0" using inv' by simp
  let ?s' = "(log_event (Prediction_recorded i score) s)
               \<lparr>predictions := (predictions s)[i - c := score],
                workers := (workers s)[t := Running]\<rparr>"
  have eq: "process data fb t i s = ?s'"
    using inv' i_lt range plen
    by (simp add: process_def Let_def score_def c_def [symmetric])
  have tl: "length (trace s0) \<le> length (trace s)" using inv' by simp
  have nr: "new_records s0 ?s' = new_records s0 s @ [i]"
    using tl by (simp add: new_records_def log_event_def recorded_indices_append)
  have cl: "sum_list (map claimed_by ((workers s)[t := Running])) + {#i#}
      = sum_list (map claimed_by (workers s))"
    using sum_list_map_update [OF t, of claimed_by Running] claimed
    by (simp add: claimed_by_def)
  have arr: "sum_list (map arrived ((workers s)[t := Running]))
      = sum_list (map arrived (workers s))"
    using t claimed by (intro sum_list_map_update_same) (simp_all add: arrived_def)
  have fresh: "i \<notin> set (new_records s0 s)"
  proof
    assume "i \<in> set (new_records s0 s)"
    then have "i \<in># mset (new_records s0 s)" by simp
    then have c1: "1 \<le> count (mset (new_records s0 s)) i"
      by (simp only: count_greater_eq_one_iff)
    have c2: "1 \<le> count (sum_list (map claimed_by (workers s))) i"
      using mem by (simp only: count_greater_eq_one_iff)
    have "count (mset (new_records s0 s) + sum_list (map claimed_by (workers s))) i
        = count (mset (new_records s0 s)) i + count (sum_list (map claimed_by (workers s))) i"
      by (rule count_union)
    with c1 c2 have "2 \<le> count (mset (new_records s0 s) + sum_list (map claimed_by (workers s))) i"
      by linarith
    then show False
      unfolding ms using count_upt_le_one [of c "c + min (nat (reps s)) m" i] by linarith
  qed
  have old_range: "\<And>j. j \<in> set (new_records s0 s) \<Longrightarrow> c \<le> j"
  proof -
    fix j assume "j \<in> set (new_records s0 s)"
    then have "j \<in># mset (new_records s0 s) + sum_list (map claimed_by (workers s))" by simp
    then have "j \<in># mset [c..<c + min (nat (reps s)) m]" unfolding ms .
    then show "c \<le> j" by simp
  qed
  have P1: "\<not> train ?s'" using inv' by (simp add: log_event_def)
  have P2: "connections ?s' = connections s0" using inv' by (simp add: log_event_def)
  have P3: "length (workers ?s') = length (workers s0)" using inv' by (simp add: log_event_def)
  have P4: "Undefined_behaviour \<notin> set (workers ?s')"
  proof -
    have "Undefined_behaviour \<notin> set (workers s)" using inv' by simp
    then have "Undefined_behaviour \<notin> set ((workers s)[t := Running])"
      by (rule set_update_not_member) simp
    then show ?thesis by (simp add: log_event_def)
  qed
  have P5: "length (predictions ?s') = m" using inv' by (simp add: log_event_def)
  have P6: "length (trace s0) \<le> length (trace ?s')" using tl by (simp add: log_event_def)
  have P7: "mset (new_records s0 ?s') + sum_list (map claimed_by (workers ?s'))
      = mset [c..<c + min (nat (reps ?s')) m]"
  proof -
    have "mset (new_records s0 ?s') + sum_list (map claimed_by (workers ?s'))
        = mset (new_records s0 s) + (sum_list (map claimed_by ((workers s)[t := Running])) + {#i#})"
      unfolding nr by (simp add: log_event_def)
    also have "\<dots> = mset [c..<c + min (nat (reps s)) m]"
      unfolding cl by (rule ms)
    finally show ?thesis by (simp add: log_event_def)
  qed
  have P8: "\<forall>j\<in>set (new_records s0 ?s').
      predictions ?s' ! (j - c) = compute_score (compute_nodes (connections s0) (data ! j))"
  proof
    fix j assume "j \<in> set (new_records s0 ?s')"
    then consider "j = i" | "j \<in> set (new_records s0 s)" unfolding nr by auto
    then show "predictions ?s' ! (j - c) = compute_score (compute_nodes (connections s0) (data ! j))"
    proof cases
      case 1
      have "i - c < length (predictions s)" using range plen by simp
      then show ?thesis using 1 conn by (simp add: log_event_def score_def)
    next
      case 2
      then have "j \<noteq> i" using fresh by auto
      moreover have "c \<le> j" using 2 by (rule old_range)
      ultimately have "i - c \<noteq> j - c" using range by linarith
      moreover have "predictions s ! (j - c) = compute_score (compute_nodes (connections s0) (data ! j))"
        using inv' 2 by simp
      ultimately show ?thesis by (simp add: log_event_def)
    qed
  qed
  have P9: "0 \<le> reps ?s'" using inv' by (simp add: log_event_def)
  have P10: "reps ?s' \<le> int m + int (sum_list (map arrived (workers ?s')))"
    using inv' arr by (simp add: log_event_def)
  have P11: "Waiting \<in> set (workers ?s') \<longrightarrow> int m \<le> reps ?s'"
  proof
    assume "Waiting \<in> set (workers ?s')"
    then have "Waiting \<in> set ((workers s)[t := Running])" by (simp add: log_event_def)
    then have "Waiting \<in> set (workers s)"
      using set_update_subset_insert [of "workers s" t Running] by auto
    then show "int m \<le> reps ?s'" using inv' by (simp add: log_event_def)
  qed
  show ?thesis
    unfolding eq evaluate_inv_def
    using P1 P2 P3 P4 P5 P6 P7 P8 P9 P10 P11
    unfolding c_def [symmetric] m_def [symmetric] by blast
qed

lemma evaluate_inv_reset_update:
  assumes inv: "evaluate_inv data s0 s"
      and t: "t < length (workers s)"
      and released: "workers s ! t = Released"
  shows "evaluate_inv data s0 (reset_update t s)"
proof -
  have cl: "sum_list (map claimed_by ((workers s)[t := Running]))
      = sum_list (map claimed_by (workers s))"
    using t released by (intro sum_list_map_update_same) (simp_all add: claimed_by_def)
  have arr: "sum_list (map arrived ((workers s)[t := Running]))
      = sum_list (map arrived (workers s))"
    using t released by (intro sum_list_map_update_same) (simp_all add: arrived_def)
  have nr: "new_records s0 (reset_update t s) = new_records s0 s"
    by (simp add: new_records_def reset_update_def)
  have ub: "Undefined_behaviour \<notin> set ((workers s)[t := Running])"
  proof -
    have "Undefined_behaviour \<notin> set (workers s)" using inv by (simp add: evaluate_inv_def)
    then show ?thesis by (rule set_update_not_member) simp
  qed
  have wt: "Waiting \<in> set ((workers s)[t := Running]) \<Longrightarrow> Waiting \<in> set (workers s)"
    using set_update_subset_insert [of "workers s" t Running] by auto
  have f: "train (reset_update t s) = train s" "connections (reset_update t s) = connections s"
      "workers (reset_update t s) = (workers s)[t := Running]"
      "predictions (reset_update t s) = predictions s" "trace (reset_update t s) = trace s"
      "reps (reset_update t s) = reps s"
    by (simp_all add: reset_update_def)
  show ?thesis
    using inv ub wt unfolding evaluate_inv_def nr f cl arr by (simp only: length_list_update) blast
qed

lemma evaluate_inv_step:
  assumes "evaluate_inv data s0 s"
      and "length data + length (workers s0) + 1 < 2 ^ 63"
  shows "\<exists>s'. step data fb (Worker_step t e) s = Inr s' \<and> evaluate_inv data s0 s'"
proof (cases "t < length (workers s)")
  case False
  with assms(1) show ?thesis by simp
next
  case True
  show ?thesis
  proof (cases "workers s ! t")
    case Running
    with True assms show ?thesis by (simp add: evaluate_inv_claim)
  next
    case (Claimed i)
    with True assms show ?thesis by (simp add: evaluate_inv_process)
  next
    case Waiting
    with True assms show ?thesis by simp
  next
    case Released
    with True assms show ?thesis by (simp add: evaluate_inv_reset_update)
  next
    case Undefined_behaviour
    with True assms show ?thesis by simp
  qed
qed

lemma evaluate_inv_run:
  assumes "evaluate_inv data s0 s"
      and "length data + length (workers s0) + 1 < 2 ^ 63"
      and "Completion \<notin> set schedule"
  shows "\<exists>s'. run data fb schedule s = Inr s' \<and> evaluate_inv data s0 s'"
  using assms(1,3)
proof (induction schedule arbitrary: s)
  case Nil
  then show ?case by simp
next
  case (Cons a schedule)
  from Cons.prems(2) obtain t e where a: "a = Worker_step t e"
    by (cases a) auto
  from evaluate_inv_step [OF Cons.prems(1) assms(2)] obtain s1 where
    s1: "step data fb (Worker_step t e) s = Inr s1" "evaluate_inv data s0 s1"
    by blast
  from Cons.IH [OF s1(2)] Cons.prems(2) obtain s' where
    "run data fb schedule s1 = Inr s'" "evaluate_inv data s0 s'"
    by auto
  with a s1(1) show ?case by simp
qed

lemma no_claims:
  "\<forall>w\<in>set ws. claimed_by w = {#} \<Longrightarrow> sum_list (map claimed_by ws) = {#}"
  by (induction ws) simp_all

lemma evaluate_inv_start:
  assumes "\<not> train s0" and "reps s0 = 0"
      and "\<forall>w\<in>set (workers s0). w = Released \<or> w = Running"
      and "length (predictions s0) = length data - train_cutoff_index data"
  shows "evaluate_inv data s0 s0"
proof -
  have "\<forall>w\<in>set (workers s0). claimed_by w = {#}"
    using assms(3) by (auto simp: claimed_by_def)
  then have cl: "sum_list (map claimed_by (workers s0)) = {#}" by (rule no_claims)
  have nr: "new_records s0 s0 = []" by (simp add: new_records_def)
  have ub: "Undefined_behaviour \<notin> set (workers s0)" "Waiting \<notin> set (workers s0)"
    using assms(3) by auto
  show ?thesis
    unfolding evaluate_inv_def nr cl using assms(1,2,4) ub by simp
qed

lemma evaluate_inv_done:
  assumes inv: "evaluate_inv data s0 s"
      and fin: "all_waiting s"
      and pool: "workers s0 \<noteq> []"
  shows "mset (new_records s0 s) = mset [train_cutoff_index data..<length data]"
proof -
  define c where "c = train_cutoff_index data"
  define m where "m = length data - c"
  have cn: "c + m = length data"
    using train_cutoff_index_le [of data] by (simp add: c_def m_def)
  note inv' = inv [unfolded evaluate_inv_def, folded c_def, folded m_def]
  have all: "\<forall>w\<in>set (workers s). w = Waiting"
    using fin by (simp add: all_waiting_def list_all_iff)
  then have "\<forall>w\<in>set (workers s). claimed_by w = {#}"
    by (auto simp: claimed_by_def)
  then have cl: "sum_list (map claimed_by (workers s)) = {#}" by (rule no_claims)
  have "workers s \<noteq> []" using inv' pool by auto
  then obtain w where "w \<in> set (workers s)" by (cases "workers s") auto
  with all have "Waiting \<in> set (workers s)" by auto
  with inv' have "int m \<le> reps s" by simp
  then have "min (nat (reps s)) m = m" by linarith
  moreover have "mset (new_records s0 s) + sum_list (map claimed_by (workers s))
      = mset [c..<c + min (nat (reps s)) m]" using inv' by simp
  ultimately show ?thesis
    unfolding cl c_def [symmetric] using cn by simp
qed

text \<open>
  How an Evaluate phase starts: the operator types \<open>E\<close> at the prompt of the
  completion function, which sets the counter to 0 and releases the workers.
\<close>

lemma evaluate_command_starts_phase:
  assumes "all_waiting s" and "excess_reps s = 0" and "train s"
      and "console s = (CHR ''E'', number) # rest"
  shows "\<exists>s0. complete_phase data s = Inr s0 \<and> \<not> train s0 \<and> reps s0 = 0
              \<and> workers s0 = replicate (length (workers s)) Released
              \<and> predictions s0 = predictions s"
  using assms
  by (simp add: complete_phase_def combine_updates_def log_event_def Let_def
        map_replicate_const)

text \<open>
  Progress of an Evaluate phase: every step of a worker that is not at the barrier
  uses up one of the remaining steps, and a step of one worker leaves the others as they are.
\<close>

lemma run_append:
  "run data fb (xs @ ys) s =
     (case run data fb xs s of Inl err \<Rightarrow> Inl err | Inr s1 \<Rightarrow> run data fb ys s1)"
  by (induction xs arbitrary: s) (auto split: sum.splits)

lemma busy_le_length: "sum_list (map busy ws) \<le> length ws"
  by (induction ws) (auto simp: busy_def split: worker.splits)

lemma claim_in_evaluate_phase:
  assumes inv: "evaluate_inv data s0 s"
      and bound: "length data + length (workers s0) + 1 < 2 ^ 63"
  shows "claim data t e s =
           s\<lparr>reps := reps s + 1,
             workers := (workers s)[t := (if train_cutoff_index data + nat (reps s) < length data
                                          then Claimed (train_cutoff_index data + nat (reps s))
                                          else Waiting)]\<rparr>"
proof -
  define c where "c = train_cutoff_index data"
  define m where "m = length data - c"
  have cn: "int c + int m = int (length data)"
    using train_cutoff_index_le [of data] by (simp add: c_def m_def)
  note i = inv [unfolded evaluate_inv_def, folded c_def, folded m_def]
  have r0: "0 \<le> reps s" using i by simp
  have "sum_list (map arrived (workers s)) \<le> length (workers s0)"
    using arrived_le_length [of "workers s"] i by simp
  moreover have "reps s \<le> int m + int (sum_list (map arrived (workers s)))" using i by simp
  ultimately have rP: "reps s \<le> int m + int (length (workers s0))" by linarith
  have "int (length data + length (workers s0) + 1) < int (2 ^ 63)"
    using bound by (simp only: of_nat_less_iff)
  then have small: "int (length data) + int (length (workers s0)) + 1 < 2 ^ 63" by simp
  have pw: "(2 :: int) ^ 63 < 2 ^ 64" by simp
  have b1: "reps s + 1 < 2 ^ 63" using rP small cn by linarith
  have b2: "int c + reps s < 2 ^ 64" using rP small cn pw by linarith
  show ?thesis
    using i r0 b1 b2 unfolding c_def by (intro evaluate_claim) simp_all
qed

lemma process_fields:
  "reps (process data fb t i s) = reps s
   \<and> (workers (process data fb t i s) = (workers s)[t := Running]
      \<or> workers (process data fb t i s) = (workers s)[t := Undefined_behaviour])"
  by (simp add: process_def Let_def log_event_def)

lemma remaining_steps_step:
  assumes inv: "evaluate_inv data s0 s"
      and bound: "length data + length (workers s0) + 1 < 2 ^ 63"
      and st: "step data fb (Worker_step t e) s = Inr s'"
  shows "remaining_steps data s' \<le> remaining_steps data s
         \<and> (t < length (workers s) \<and> workers s ! t \<noteq> Waiting \<longrightarrow>
              remaining_steps data s' < remaining_steps data s)"
proof (cases "t < length (workers s)")
  case False
  with st show ?thesis by simp
next
  case t: True
  define m where "m = length data - train_cutoff_index data"
  from evaluate_inv_step [OF inv bound, of fb t e] st have inv': "evaluate_inv data s0 s'"
    by simp
  have len: "length (workers s) = length (workers s0)" "length (workers s') = length (workers s0)"
    using inv inv' by (simp_all add: evaluate_inv_def)
  have upd: "\<And>w. sum_list (map busy ((workers s)[t := w])) + busy (workers s ! t)
      = sum_list (map busy (workers s)) + busy w"
    using t by (rule sum_list_map_update)
  show ?thesis
  proof (cases "workers s ! t")
    case Running
    let ?w = "if train_cutoff_index data + nat (reps s) < length data
              then Claimed (train_cutoff_index data + nat (reps s)) else Waiting"
    from st t Running have s': "s' = claim data t e s" by simp
    have eq: "claim data t e s = s\<lparr>reps := reps s + 1, workers := (workers s)[t := ?w]\<rparr>"
      using inv bound by (rule claim_in_evaluate_phase)
    have r0: "0 \<le> reps s" using inv by (simp add: evaluate_inv_def)
    have "reps s' \<le> int m + int (sum_list (map arrived (workers s')))"
      using inv' by (simp add: evaluate_inv_def m_def)
    moreover have "sum_list (map arrived (workers s')) \<le> length (workers s0)"
      using arrived_le_length [of "workers s'"] len by simp
    ultimately have "reps s + 1 \<le> int m + int (length (workers s0))"
      unfolding s' eq by simp
    then have lt: "nat (reps s) < m + length (workers s)" using r0 len by linarith
    have n1: "nat (reps s + 1) = Suc (nat (reps s))" using r0 by linarith
    have "busy ?w \<le> 1" by (simp add: busy_def)
    with upd [of ?w] Running have b: "sum_list (map busy ((workers s)[t := ?w]))
        \<le> sum_list (map busy (workers s)) + 1"
      by (simp add: busy_def)
    have "remaining_steps data s' < remaining_steps data s"
      unfolding s' eq remaining_steps_def m_def [symmetric] using lt b
      by (simp add: n1)
    then show ?thesis by simp
  next
    case (Claimed i)
    from st t Claimed have s': "s' = process data fb t i s" by simp
    note f = process_fields [of data fb t i s]
    from f have r: "reps s' = reps s" unfolding s' by simp
    from f upd [of Running] upd [of Undefined_behaviour] Claimed
    have "sum_list (map busy (workers s')) + 1 = sum_list (map busy (workers s))"
      unfolding s' by (auto simp: busy_def)
    then have "remaining_steps data s' < remaining_steps data s"
      unfolding remaining_steps_def r len by linarith
    then show ?thesis by simp
  next
    case Waiting
    with st t show ?thesis by simp
  next
    case Released
    from st t Released have s': "s' = reset_update t s" by simp
    have r: "reps s' = reps s" "workers s' = (workers s)[t := Running]"
      unfolding s' by (simp_all add: reset_update_def)
    from upd [of Running] Released
    have "sum_list (map busy (workers s')) + 1 = sum_list (map busy (workers s))"
      unfolding r by (simp add: busy_def)
    then have "remaining_steps data s' < remaining_steps data s"
      unfolding remaining_steps_def r(1) len by linarith
    then show ?thesis by simp
  next
    case Undefined_behaviour
    with t have "Undefined_behaviour \<in> set (workers s)" by (metis nth_mem)
    with inv show ?thesis by (simp add: evaluate_inv_def)
  qed
qed

lemma step_other_worker:
  assumes "step data fb (Worker_step t e) s = Inr s'" and "t \<noteq> u"
  shows "workers s' ! u = workers s ! u"
proof (cases "t < length (workers s)")
  case False
  with assms show ?thesis by simp
next
  case True
  show ?thesis
  proof (cases "workers s ! t")
    case (Claimed i)
    with assms(1) True have "s' = process data fb t i s" by simp
    with process_fields [of data fb t i s] assms(2) show ?thesis by auto
  qed (use assms True in \<open>auto simp: claim_def reset_update_def Let_def\<close>)
qed

lemma remaining_steps_run:
  assumes "evaluate_inv data s0 s"
      and "length data + length (workers s0) + 1 < 2 ^ 63"
      and "Completion \<notin> set schedule"
      and "run data fb schedule s = Inr s'"
  shows "remaining_steps data s' \<le> remaining_steps data s"
  using assms(1,3,4)
proof (induction schedule arbitrary: s)
  case Nil
  then show ?case by simp
next
  case (Cons a schedule)
  from Cons.prems(2) obtain t e where a: "a = Worker_step t e" by (cases a) auto
  from evaluate_inv_step [OF Cons.prems(1) assms(2)] obtain s1 where
    s1: "step data fb (Worker_step t e) s = Inr s1" "evaluate_inv data s0 s1" by blast
  from Cons.prems(3) a s1(1) have r: "run data fb schedule s1 = Inr s'" by simp
  from Cons.IH [OF s1(2) _ r] Cons.prems(2)
  have "remaining_steps data s' \<le> remaining_steps data s1" by simp
  moreover have "remaining_steps data s1 \<le> remaining_steps data s"
    using remaining_steps_step [OF Cons.prems(1) assms(2) s1(1)] by simp
  ultimately show ?case by simp
qed

lemma remaining_steps_round:
  assumes "evaluate_inv data s0 s"
      and "length data + length (workers s0) + 1 < 2 ^ 63"
      and "Completion \<notin> set turn"
      and "run data fb turn s = Inr s'"
      and "u < length (workers s)" and "workers s ! u \<noteq> Waiting"
      and "\<exists>e. Worker_step u e \<in> set turn"
  shows "remaining_steps data s' < remaining_steps data s"
  using assms(1,3,4,5,6,7)
proof (induction turn arbitrary: s)
  case Nil
  then show ?case by simp
next
  case (Cons a turn)
  from Cons.prems(2) obtain t e where a: "a = Worker_step t e" by (cases a) auto
  from evaluate_inv_step [OF Cons.prems(1) assms(2)] obtain s1 where
    s1: "step data fb (Worker_step t e) s = Inr s1" "evaluate_inv data s0 s1" by blast
  from Cons.prems(3) a s1(1) have r: "run data fb turn s1 = Inr s'" by simp
  have rest: "Completion \<notin> set turn" using Cons.prems(2) by simp
  note one = remaining_steps_step [OF Cons.prems(1) assms(2) s1(1)]
  show ?case
  proof (cases "t = u")
    case True
    with one Cons.prems(4,5) have "remaining_steps data s1 < remaining_steps data s" by simp
    moreover have "remaining_steps data s' \<le> remaining_steps data s1"
      using s1(2) assms(2) rest r by (rule remaining_steps_run)
    ultimately show ?thesis by simp
  next
    case False
    have len: "length (workers s1) = length (workers s)"
      using Cons.prems(1) s1(2) by (simp add: evaluate_inv_def)
    have same: "workers s1 ! u = workers s ! u"
      using s1(1) False by (rule step_other_worker)
    have later: "\<exists>e. Worker_step u e \<in> set turn"
      using Cons.prems(6) a False by auto
    have "remaining_steps data s' < remaining_steps data s1"
      using Cons.IH [OF s1(2) rest r] Cons.prems(4,5) len same later by simp
    with one show ?thesis by simp
  qed
qed

lemma all_waiting_stays:
  assumes "all_waiting s" and "Completion \<notin> set schedule"
  shows "run data fb schedule s = Inr s"
  using assms(2)
proof (induction schedule)
  case Nil
  show ?case by simp
next
  case (Cons a schedule)
  from Cons.prems obtain t e where a: "a = Worker_step t e" by (cases a) auto
  have "step data fb (Worker_step t e) s = Inr s"
    using assms(1) by (simp add: all_waiting_def list_all_length)
  with Cons a show ?case by simp
qed

lemma fair_rounds_reach_barrier:
  assumes "evaluate_inv data s0 s"
      and "length data + length (workers s0) + 1 < 2 ^ 63"
      and "\<forall>turn\<in>set rounds. Completion \<notin> set turn
             \<and> (\<forall>t<length (workers s0). \<exists>e. Worker_step t e \<in> set turn)"
  shows "\<exists>s'. run data fb (concat rounds) s = Inr s' \<and> evaluate_inv data s0 s'
           \<and> (all_waiting s' \<or> remaining_steps data s' + length rounds \<le> remaining_steps data s)"
  using assms(1,3)
proof (induction rounds arbitrary: s)
  case Nil
  then show ?case by simp
next
  case (Cons turn rounds)
  have nc: "Completion \<notin> set turn" "Completion \<notin> set (concat rounds)"
    using Cons.prems(2) by auto
  show ?case
  proof (cases "all_waiting s")
    case True
    have "Completion \<notin> set (concat (turn # rounds))" using nc by simp
    with True have "run data fb (concat (turn # rounds)) s = Inr s" by (rule all_waiting_stays)
    with True Cons.prems(1) show ?thesis by simp
  next
    case False
    then obtain u where u: "u < length (workers s)" "workers s ! u \<noteq> Waiting"
      by (auto simp: all_waiting_def list_all_length)
    have len: "length (workers s) = length (workers s0)"
      using Cons.prems(1) by (simp add: evaluate_inv_def)
    from evaluate_inv_run [OF Cons.prems(1) assms(2) nc(1)] obtain s1 where
      s1: "run data fb turn s = Inr s1" "evaluate_inv data s0 s1" by blast
    have fair: "\<exists>e. Worker_step u e \<in> set turn"
      using Cons.prems(2) u(1) len by simp
    have less: "remaining_steps data s1 < remaining_steps data s"
      using Cons.prems(1) assms(2) nc(1) s1(1) u fair by (rule remaining_steps_round)
    from Cons.IH [OF s1(2)] Cons.prems(2) obtain s' where
      s': "run data fb (concat rounds) s1 = Inr s'" "evaluate_inv data s0 s'"
        "all_waiting s' \<or> remaining_steps data s' + length rounds \<le> remaining_steps data s1"
      by auto
    have "run data fb (concat (turn # rounds)) s = Inr s'"
      using s1(1) s'(1) by (simp add: run_append)
    moreover have "all_waiting s'
        \<or> remaining_steps data s' + length (turn # rounds) \<le> remaining_steps data s"
      using s'(3) less by auto
    ultimately show ?thesis using s'(2) by blast
  qed
qed

lemma remaining_steps_le:
  "remaining_steps data s
     \<le> 2 * (length data - train_cutoff_index data) + 3 * length (workers s)"
  using busy_le_length [of "workers s"] by (simp add: remaining_steps_def)

text \<open>
  C6. An Evaluate phase starts with the counter at 0 and the workers released. Whatever
  the interleaving of the workers' steps: a worker at the head of its loop claims the
  offset that \<open>fetch_add\<close> returns (the counter's value, then incremented, so the
  first offset is 0) and goes to the barrier as soon as its offset reaches the length of
  the evaluation suffix; when all workers are at the barrier, the predictions
  recorded in the phase are those of the indices \<open>[cutoff, datasetSize)\<close>, each
  exactly once, and the prediction buffer holds the score of each of them; and the
  phase does reach the barrier: from the state any interleaving has led to, every
  continuation in which each worker is scheduled again and again (more rounds than
  twice the suffix length plus three times the pool size) ends with all workers at the
  barrier and each index scored exactly once.
\<close>

theorem evaluate_phase_scores_each_sample_once:
  assumes "\<not> train s0" and "reps s0 = 0"
      and "\<forall>w\<in>set (workers s0). w = Released \<or> w = Running"
      and "workers s0 \<noteq> []"
      and "length (predictions s0) = length data - train_cutoff_index data"
      and "length data + length (workers s0) + 1 < 2 ^ 63"
      and "Completion \<notin> set schedule"
  shows "\<exists>s'. run data fb schedule s0 = Inr s'
           \<and> (\<forall>t e. t < length (workers s') \<and> workers s' ! t = Running \<longrightarrow>
                 reps (claim data t e s') = reps s' + 1
                 \<and> workers (claim data t e s') ! t =
                     (if train_cutoff_index data + nat (reps s') < length data
                      then Claimed (train_cutoff_index data + nat (reps s'))
                      else Waiting))
           \<and> (all_waiting s' \<longrightarrow>
                 mset (recorded_indices (drop (length (trace s0)) (trace s')))
                   = mset [train_cutoff_index data..<length data]
                 \<and> (\<forall>i. train_cutoff_index data \<le> i \<and> i < length data \<longrightarrow>
                       predictions s' ! (i - train_cutoff_index data)
                         = compute_score (compute_nodes (connections s0) (data ! i))))
           \<and> (\<forall>rounds.
                 (\<forall>turn\<in>set rounds. Completion \<notin> set turn
                    \<and> (\<forall>t<length (workers s0). \<exists>e. Worker_step t e \<in> set turn))
                 \<and> 2 * (length data - train_cutoff_index data) + 3 * length (workers s0)
                     < length rounds \<longrightarrow>
                 (\<exists>s''. run data fb (concat rounds) s' = Inr s''
                    \<and> all_waiting s''
                    \<and> mset (recorded_indices (drop (length (trace s0)) (trace s'')))
                        = mset [train_cutoff_index data..<length data]
                    \<and> (\<forall>i. train_cutoff_index data \<le> i \<and> i < length data \<longrightarrow>
                          predictions s'' ! (i - train_cutoff_index data)
                            = compute_score (compute_nodes (connections s0) (data ! i)))))"
proof -
  have "evaluate_inv data s0 s0"
    using assms(1,2,3,5) by (rule evaluate_inv_start)
  from evaluate_inv_run [OF this assms(6,7)] obtain s' where
    s': "run data fb schedule s0 = Inr s'" and inv: "evaluate_inv data s0 s'"
    by blast
  have claims: "reps (claim data t e s') = reps s' + 1
        \<and> workers (claim data t e s') ! t =
            (if train_cutoff_index data + nat (reps s') < length data
             then Claimed (train_cutoff_index data + nat (reps s'))
             else Waiting)"
    if "t < length (workers s') \<and> workers s' ! t = Running" for t e
  proof -
    define c where "c = train_cutoff_index data"
    define m where "m = length data - c"
    have cn: "int c + int m = int (length data)"
      using train_cutoff_index_le [of data] by (simp add: c_def m_def)
    note i = inv [unfolded evaluate_inv_def, folded c_def, folded m_def]
    have r0: "0 \<le> reps s'" using i by simp
    have "sum_list (map arrived (workers s')) \<le> length (workers s0)"
      using arrived_le_length [of "workers s'"] i by simp
    moreover have "reps s' \<le> int m + int (sum_list (map arrived (workers s')))" using i by simp
    ultimately have rP: "reps s' \<le> int m + int (length (workers s0))" by linarith
    have "int (length data + length (workers s0) + 1) < int (2 ^ 63)"
      using assms(6) by (simp only: of_nat_less_iff)
    then have small: "int (length data) + int (length (workers s0)) + 1 < 2 ^ 63" by simp
    have pw: "(2 :: int) ^ 63 < 2 ^ 64" by simp
    have b1: "reps s' + 1 < 2 ^ 63" using rP small cn by linarith
    have b2: "int c + reps s' < 2 ^ 64" using rP small cn pw by linarith
    have "claim data t e s' =
           s'\<lparr>reps := reps s' + 1,
             workers := (workers s')[t := (if train_cutoff_index data + nat (reps s') < length data
                                          then Claimed (train_cutoff_index data + nat (reps s'))
                                          else Waiting)]\<rparr>"
      using i r0 b1 b2 unfolding c_def by (intro evaluate_claim) simp_all
    then show ?thesis using that by simp
  qed
  have cover: "mset (recorded_indices (drop (length (trace s0)) (trace s)))
                   = mset [train_cutoff_index data..<length data]
        \<and> (\<forall>i. train_cutoff_index data \<le> i \<and> i < length data \<longrightarrow>
                       predictions s ! (i - train_cutoff_index data)
                         = compute_score (compute_nodes (connections s0) (data ! i)))"
    if inv: "evaluate_inv data s0 s" and fin: "all_waiting s" for s
  proof -
    have m: "mset (new_records s0 s) = mset [train_cutoff_index data..<length data]"
      using inv fin assms(4) by (rule evaluate_inv_done)
    then have "set (new_records s0 s) = set [train_cutoff_index data..<length data]"
      by (rule mset_eq_setD)
    moreover have "\<forall>i\<in>set (new_records s0 s).
        predictions s ! (i - train_cutoff_index data)
          = compute_score (compute_nodes (connections s0) (data ! i))"
      using inv by (simp add: evaluate_inv_def)
    ultimately have "\<forall>i. train_cutoff_index data \<le> i \<and> i < length data \<longrightarrow>
                       predictions s ! (i - train_cutoff_index data)
                         = compute_score (compute_nodes (connections s0) (data ! i))"
      by simp
    with m show ?thesis by (simp add: new_records_def)
  qed
  have live: "\<exists>s''. run data fb (concat rounds) s' = Inr s''
                    \<and> all_waiting s''
                    \<and> mset (recorded_indices (drop (length (trace s0)) (trace s'')))
                        = mset [train_cutoff_index data..<length data]
                    \<and> (\<forall>i. train_cutoff_index data \<le> i \<and> i < length data \<longrightarrow>
                          predictions s'' ! (i - train_cutoff_index data)
                            = compute_score (compute_nodes (connections s0) (data ! i)))"
    if fair: "(\<forall>turn\<in>set rounds. Completion \<notin> set turn
                    \<and> (\<forall>t<length (workers s0). \<exists>e. Worker_step t e \<in> set turn))
                 \<and> 2 * (length data - train_cutoff_index data) + 3 * length (workers s0)
                     < length rounds" for rounds
  proof -
    from fair have turns: "\<forall>turn\<in>set rounds. Completion \<notin> set turn
                    \<and> (\<forall>t<length (workers s0). \<exists>e. Worker_step t e \<in> set turn)"
      and long: "2 * (length data - train_cutoff_index data) + 3 * length (workers s0)
                     < length rounds"
      by blast+
    from fair_rounds_reach_barrier [OF inv assms(6) turns, of fb] obtain s'' where
      s'': "run data fb (concat rounds) s' = Inr s''" "evaluate_inv data s0 s''"
        "all_waiting s'' \<or> remaining_steps data s'' + length rounds \<le> remaining_steps data s'"
      by blast
    have "length (workers s') = length (workers s0)"
      using inv by (simp add: evaluate_inv_def)
    with remaining_steps_le [of data s'] long
    have "remaining_steps data s' < length rounds" by simp
    with s''(3) have fin: "all_waiting s''" by auto
    from cover [OF s''(2) fin] s''(1) fin show ?thesis by blast
  qed
  from s' claims cover [OF inv] live show ?thesis by blast
qed


lemma length_example_rows: "length example_rows = 20"
  by (simp add: example_rows_def)

lemma train_cutoff_index_example_rows: "train_cutoff_index example_rows = 18"
  by (simp add: train_cutoff_index_def wrap_size_t_def length_example_rows)

lemma run_example_pool:
  "run example_rows (1 / 2)
     [Worker_step 0 0, Worker_step 1 0, Worker_step 0 0, Worker_step 1 0,
      Worker_step 1 0, Worker_step 0 0, Worker_step 0 0, Worker_step 1 0]
     example_pool
   = Inr \<lparr>connections = constant_tensor (1 / 10), updates = [zero_update, zero_update],
          train = False, reps = 4, excess_reps = 0,
          predictions = [compute_score (compute_nodes (constant_tensor (1 / 10)) (example_rows ! 18)),
                         compute_score (compute_nodes (constant_tensor (1 / 10)) (example_rows ! 19))],
          workers = [Waiting, Waiting], console = [],
          trace = [Prompt,
                   Prediction_recorded 19
                     (compute_score (compute_nodes (constant_tensor (1 / 10)) (example_rows ! 19))),
                   Prediction_recorded 18
                     (compute_score (compute_nodes (constant_tensor (1 / 10)) (example_rows ! 18)))]\<rparr>"
  by (simp add: example_pool_def reset_update_def claim_def process_def log_event_def
        train_cutoff_index_example_rows length_example_rows wrap_ptrdiff_def wrap_size_t_def
        Let_def)

theorem evaluate_phase_scores_each_sample_once_witness:
  "(\<exists>s'. run example_rows (1 / 2)
            [Worker_step 0 0, Worker_step 1 0, Worker_step 0 0, Worker_step 1 0,
             Worker_step 1 0, Worker_step 0 0, Worker_step 0 0, Worker_step 1 0]
            example_pool
          = Inr s'
         \<and> all_waiting s'
         \<and> recorded_indices (drop (length (trace example_pool)) (trace s')) = [19, 18]
         \<and> mset (recorded_indices (drop (length (trace example_pool)) (trace s')))
             = mset [train_cutoff_index example_rows..<length example_rows]
         \<and> predictions s' ! 0
             = compute_score (compute_nodes (constant_tensor (1 / 10)) (example_rows ! 18))
         \<and> predictions s' ! 1
             = compute_score (compute_nodes (constant_tensor (1 / 10)) (example_rows ! 19)))
   \<and> (\<exists>s''. run example_rows (1 / 2)
              (concat (replicate 11 [Worker_step 1 0, Worker_step 0 0])) example_pool
            = Inr s''
           \<and> all_waiting s''
           \<and> mset (recorded_indices (drop (length (trace example_pool)) (trace s'')))
               = mset [18..<20])"
proof -
  let ?schedule = "[Worker_step 0 0, Worker_step 1 0, Worker_step 0 0, Worker_step 1 0,
                    Worker_step 1 0, Worker_step 0 0, Worker_step 0 0, Worker_step 1 0]"
  let ?rounds = "replicate 11 [Worker_step 1 0, Worker_step 0 0]"
  have h1: "\<not> train example_pool" and h2: "reps example_pool = 0"
    and h3: "\<forall>w\<in>set (workers example_pool). w = Released \<or> w = Running"
    and h4: "workers example_pool \<noteq> []"
    by (simp_all add: example_pool_def)
  have h5: "length (predictions example_pool)
      = length example_rows - train_cutoff_index example_rows"
    by (simp add: example_pool_def length_example_rows train_cutoff_index_example_rows)
  have h6: "length example_rows + length (workers example_pool) + 1 < 2 ^ 63"
    by (simp add: example_pool_def length_example_rows)
  have h7: "Completion \<notin> set ?schedule" by simp
  have h8: "Completion \<notin> set ([] :: action list)" by simp
  have conn: "connections example_pool = constant_tensor (1 / 10)"
    by (simp add: example_pool_def)
  have first: "\<exists>s'. run example_rows (1 / 2) ?schedule example_pool = Inr s'
         \<and> all_waiting s'
         \<and> recorded_indices (drop (length (trace example_pool)) (trace s')) = [19, 18]
         \<and> mset (recorded_indices (drop (length (trace example_pool)) (trace s')))
             = mset [train_cutoff_index example_rows..<length example_rows]
         \<and> predictions s' ! 0
             = compute_score (compute_nodes (constant_tensor (1 / 10)) (example_rows ! 18))
         \<and> predictions s' ! 1
             = compute_score (compute_nodes (constant_tensor (1 / 10)) (example_rows ! 19))"
  proof -
    from evaluate_phase_scores_each_sample_once [OF h1 h2 h3 h4 h5 h6 h7, of "1 / 2"]
    obtain s' where s': "run example_rows (1 / 2) ?schedule example_pool = Inr s'"
      and cover: "all_waiting s' \<longrightarrow>
          mset (recorded_indices (drop (length (trace example_pool)) (trace s')))
            = mset [train_cutoff_index example_rows..<length example_rows]
          \<and> (\<forall>i. train_cutoff_index example_rows \<le> i \<and> i < length example_rows \<longrightarrow>
                predictions s' ! (i - train_cutoff_index example_rows)
                  = compute_score (compute_nodes (connections example_pool) (example_rows ! i)))"
      by blast
    from s' have fin: "all_waiting s'"
        and rec: "recorded_indices (drop (length (trace example_pool)) (trace s')) = [19, 18]"
      unfolding run_example_pool
      by (auto simp: all_waiting_def example_pool_def)
    from cover fin have
      m: "mset (recorded_indices (drop (length (trace example_pool)) (trace s')))
            = mset [train_cutoff_index example_rows..<length example_rows]"
      and p: "\<forall>i. train_cutoff_index example_rows \<le> i \<and> i < length example_rows \<longrightarrow>
                predictions s' ! (i - train_cutoff_index example_rows)
                  = compute_score (compute_nodes (connections example_pool) (example_rows ! i))"
      by blast+
    from p [rule_format, of 18] have p0:
      "predictions s' ! 0 = compute_score (compute_nodes (constant_tensor (1 / 10)) (example_rows ! 18))"
      by (simp add: train_cutoff_index_example_rows length_example_rows conn)
    from p [rule_format, of 19] have p1:
      "predictions s' ! 1 = compute_score (compute_nodes (constant_tensor (1 / 10)) (example_rows ! 19))"
      by (simp add: train_cutoff_index_example_rows length_example_rows conn)
    from s' fin rec m p0 p1 show ?thesis by blast
  qed
  have second: "\<exists>s''. run example_rows (1 / 2) (concat ?rounds) example_pool = Inr s''
           \<and> all_waiting s''
           \<and> mset (recorded_indices (drop (length (trace example_pool)) (trace s'')))
               = mset [18..<20]"
  proof -
    have fair: "(\<forall>turn\<in>set ?rounds. Completion \<notin> set turn
                    \<and> (\<forall>t<length (workers example_pool). \<exists>e. Worker_step t e \<in> set turn))
                 \<and> 2 * (length example_rows - train_cutoff_index example_rows)
                       + 3 * length (workers example_pool)
                     < length ?rounds"
      by (auto simp: example_pool_def length_example_rows train_cutoff_index_example_rows
            less_Suc_eq)
    from evaluate_phase_scores_each_sample_once [OF h1 h2 h3 h4 h5 h6 h8, of "1 / 2"]
    obtain s' where s': "run example_rows (1 / 2) [] example_pool = Inr s'"
      and live: "\<forall>rounds.
                 (\<forall>turn\<in>set rounds. Completion \<notin> set turn
                    \<and> (\<forall>t<length (workers example_pool). \<exists>e. Worker_step t e \<in> set turn))
                 \<and> 2 * (length example_rows - train_cutoff_index example_rows)
                       + 3 * length (workers example_pool)
                     < length rounds \<longrightarrow>
                 (\<exists>s''. run example_rows (1 / 2) (concat rounds) s' = Inr s''
                    \<and> all_waiting s''
                    \<and> mset (recorded_indices (drop (length (trace example_pool)) (trace s'')))
                        = mset [train_cutoff_index example_rows..<length example_rows]
                    \<and> (\<forall>i. train_cutoff_index example_rows \<le> i \<and> i < length example_rows \<longrightarrow>
                          predictions s'' ! (i - train_cutoff_index example_rows)
                            = compute_score (compute_nodes (connections example_pool) (example_rows ! i))))"
      by blast
    from s' have eq: "s' = example_pool" by simp
    from live [rule_format, OF fair] show ?thesis
      unfolding eq train_cutoff_index_example_rows length_example_rows by blast
  qed
  from first second show ?thesis by (rule conjI)
qed

end
